theory Spec2Isabelle
  imports Complex_Main "HOL-Library.Sublist"
begin

section \<open>Data model of the ActionSynchronizer\<close>

text \<open>
  The embedding follows \<^verbatim>\<open>ActionSynchronizer\<close> (the revised class, the one that
  sorts the timeline and guards empty contents) and the \<^verbatim>\<open>detectSilence\<close> closure of
  \<^verbatim>\<open>WhiteboardPage.tsx\<close>.

  JavaScript strings are modelled as \<^typ>\<open>string\<close>: one \<^typ>\<open>char\<close> per code unit, so
  the development speaks about scripts whose code units are below 256. Numbers are
  \<^typ>\<open>int\<close>: every number the class computes is a sum, difference or product of
  integers far below \<open>2^53\<close>, where the doubles of JavaScript are exact.
\<close>

datatype ActionType = Write | Draw | Highlight | Erase | Newpage

record Action =
  type :: ActionType
  content :: string
  timestamp :: int
  executed :: bool

record SpeechSegment =
  text_s :: string
  timestamp_s :: int
  duration :: "int option"

text \<open>
  The private fields of the class. The two injected callbacks are not fields of the
  model: a call of one of them is an \<open>effect\<close> that the operation returns, in the order
  the calls happen. \<^verbatim>\<open>setTimeout(() => this.checkActions(), d)\<close> is the effect
  \<open>SetTimeout d\<close>; the timer coming due is an input of the model (a poll tick).
  \<^verbatim>\<open>debugMode\<close> only guards \<^verbatim>\<open>console.log\<close> and is left out.
\<close>

record ActionSynchronizer =
  actions :: "Action list"
  speech :: "SpeechSegment list"
  startTime :: int
  isPlaying :: bool
  processingAction :: bool
  lastActionTime :: int
  actionBuffer :: "string list"

datatype effect = ActionCallback string | OnComplete | SetTimeout nat

section \<open>The script parser\<close>

text \<open>
  The white space of \<^verbatim>\<open>String.prototype.trim\<close> and of \<^verbatim>\<open>\s\<close> among the code units
  below 256: TAB, LF, VT, FF, CR, space and the no-break space.
\<close>

definition isWhiteSpace :: "char \<Rightarrow> bool" where
  "isWhiteSpace c \<longleftrightarrow>
     c \<in> {CHR 0x09, CHR 0x0A, CHR 0x0B, CHR 0x0C, CHR 0x0D, CHR 0x20, CHR 0xA0}"

definition trim :: "string \<Rightarrow> string" where
  "trim s = rev (dropWhile isWhiteSpace (rev (dropWhile isWhiteSpace s)))"

text \<open>
  \<^verbatim>\<open>response.split('\n')\<close>: never empty (the second case of the \<open>case\<close> below does
  not occur); a final line feed gives a final empty line.
\<close>

fun split_lines :: "string \<Rightarrow> string list" where
  "split_lines [] = [[]]"
| "split_lines (c # cs) =
     (if c = CHR 0x0A then [] # split_lines cs
      else (case split_lines cs of l # ls \<Rightarrow> (c # l) # ls | [] \<Rightarrow> [[c]]))"

definition isDigit :: "char \<Rightarrow> bool" where
  "isDigit c \<longleftrightarrow> 48 \<le> (of_char c :: nat) \<and> (of_char c :: nat) \<le> 57"

definition digitVal :: "char \<Rightarrow> nat" where
  "digitVal c = of_char c - 48"

text \<open>
  \<^verbatim>\<open>line.match(/^\[(\d{2}):(\d{2})\]/)\<close> with the two \<^verbatim>\<open>parseInt(_, 10)\<close>: the pair
  (minutes, seconds). The match is the first seven code units of the line.
\<close>

fun timestampMatch :: "string \<Rightarrow> (nat \<times> nat) option" where
  "timestampMatch (b # m1 # m2 # c # s1 # s2 # e # rest) =
     (if b = CHR ''['' \<and> isDigit m1 \<and> isDigit m2 \<and> c = CHR '':'' \<and> isDigit s1 \<and> isDigit s2
         \<and> e = CHR '']''
      then Some (10 * digitVal m1 + digitVal m2, 10 * digitVal s1 + digitVal s2)
      else None)"
| "timestampMatch line = None"

text \<open>
  \<^verbatim>\<open>content.match(/(\{[^}]+\})/g)\<close>: the matches from left to right, \<open>[]\<close> standing for
  \<^verbatim>\<open>null\<close>. At an opening brace the greedy class \<^verbatim>\<open>[^}]+\<close> takes every code unit up to
  the next closing brace; the attempt succeeds when it took at least one and a closing brace
  follows (a shorter run would be followed by a code unit that is not a closing brace, so
  backtracking finds nothing else). After a match the search goes on behind it; after a
  failed attempt, at the next code unit.
\<close>

function matchCommands :: "string \<Rightarrow> string list" where
  "matchCommands [] = []"
| "matchCommands (c # cs) =
     (if c = CHR ''{'' \<and> takeWhile (\<lambda>x. x \<noteq> CHR ''}'') cs \<noteq> [] \<and> dropWhile (\<lambda>x. x \<noteq> CHR ''}'') cs \<noteq> []
      then (c # takeWhile (\<lambda>x. x \<noteq> CHR ''}'') cs @ ''}'')
             # matchCommands (tl (dropWhile (\<lambda>x. x \<noteq> CHR ''}'') cs))
      else matchCommands cs)"
  by pat_completeness auto
termination
  apply (relation "measure length")
    apply simp
   apply (simp add: less_Suc_eq_le le_diff_conv)
   apply (rule le_trans [OF length_dropWhile_le], simp)
  apply simp
  done

text \<open>\<^verbatim>\<open>content.replace(/(\{[^}]+\})/g, '')\<close>: the same matches, deleted.\<close>

function stripCommands :: "string \<Rightarrow> string" where
  "stripCommands [] = []"
| "stripCommands (c # cs) =
     (if c = CHR ''{'' \<and> takeWhile (\<lambda>x. x \<noteq> CHR ''}'') cs \<noteq> [] \<and> dropWhile (\<lambda>x. x \<noteq> CHR ''}'') cs \<noteq> []
      then stripCommands (tl (dropWhile (\<lambda>x. x \<noteq> CHR ''}'') cs))
      else c # stripCommands cs)"
  by pat_completeness auto
termination
  apply (relation "measure length")
    apply simp
   apply (simp add: less_Suc_eq_le le_diff_conv)
   apply (rule le_trans [OF length_dropWhile_le], simp)
  apply simp
  done

text \<open>
  A regular expression without \<^verbatim>\<open>^\<close> is tried at every position from the left; the
  first position where the attempt succeeds gives the match.
\<close>

fun searchFrom :: "(string \<Rightarrow> string option) \<Rightarrow> string \<Rightarrow> string option" where
  "searchFrom attempt [] = attempt []"
| "searchFrom attempt (c # cs) =
     (case attempt (c # cs) of Some g \<Rightarrow> Some g | None \<Rightarrow> searchFrom attempt cs)"

text \<open>
  One attempt of \<^verbatim>\<open>/{write:\s*"([^"]*)"}/\<close> (and of its three siblings, \<open>kw\<close> being the
  literal in front of \<^verbatim>\<open>\s*\<close>) at the start of \<open>s\<close>; the result is the captured group.
  \<^verbatim>\<open>\s*\<close> takes all the white space there is, \<^verbatim>\<open>[^"]*\<close> everything up to the next
  double quote; giving back part of either run puts a white space, or a code unit that is
  not a double quote, where the pattern wants the double quote.
\<close>

definition quotedAttempt :: "string \<Rightarrow> string \<Rightarrow> string option" where
  "quotedAttempt kw s =
     (if prefix kw s then
        (case dropWhile isWhiteSpace (drop (length kw) s) of
           q # r \<Rightarrow>
             if q = CHR 0x22 then
               (case dropWhile (\<lambda>x. x \<noteq> CHR 0x22) r of
                  q' # b # r' \<Rightarrow> if b = CHR ''}'' then Some (takeWhile (\<lambda>x. x \<noteq> CHR 0x22) r) else None
                | _ \<Rightarrow> None)
             else None
         | [] \<Rightarrow> None)
      else None)"

definition isLower :: "char \<Rightarrow> bool" where
  "isLower c \<longleftrightarrow> 97 \<le> (of_char c :: nat) \<and> (of_char c :: nat) \<le> 122"

text \<open>One attempt of \<^verbatim>\<open>/{draw:([a-z]+)}/\<close> at the start of \<open>s\<close>.\<close>

definition drawAttempt :: "string \<Rightarrow> string option" where
  "drawAttempt s =
     (if prefix ''{draw:'' s then
        (let name = takeWhile isLower (drop 6 s) in
         case dropWhile isLower (drop 6 s) of
           b # r \<Rightarrow> if name \<noteq> [] \<and> b = CHR ''}'' then Some name else None
         | [] \<Rightarrow> None)
      else None)"

definition groupOrEmpty :: "string option \<Rightarrow> string" where
  "groupOrEmpty m = (case m of Some g \<Rightarrow> g | None \<Rightarrow> [])"

text \<open>
  The \<^verbatim>\<open>startsWith\<close> chain of \<^verbatim>\<open>parseResponse\<close>: the type and the content of one
  matched brace group. Both start as \<^verbatim>\<open>'write'\<close> and \<^verbatim>\<open>''\<close>.
\<close>

definition classify :: "string \<Rightarrow> ActionType \<times> string" where
  "classify actionText =
     (if prefix ''{write:'' actionText
        then (Write, groupOrEmpty (searchFrom (quotedAttempt ''{write:'') actionText))
      else if prefix ''{draw:'' actionText
        then (Draw, groupOrEmpty (searchFrom drawAttempt actionText))
      else if prefix ''{highlight:'' actionText
        then (Highlight, groupOrEmpty (searchFrom (quotedAttempt ''{highlight:'') actionText))
      else if prefix ''{erase:'' actionText
        then (Erase, groupOrEmpty (searchFrom (quotedAttempt ''{erase:'') actionText))
      else if prefix ''{newpage:'' actionText
        then (Newpage, groupOrEmpty (searchFrom (quotedAttempt ''{newpage:'') actionText))
      else (Write, []))"

text \<open>\<^verbatim>\<open>if (actionContent || type === 'draw') actions.push(...)\<close>.\<close>

definition toAction :: "int \<Rightarrow> string \<Rightarrow> Action option" where
  "toAction ts actionText =
     (let (ty, actionContent) = classify actionText in
      if actionContent \<noteq> [] \<or> ty = Draw
      then Some \<lparr>type = ty, content = actionContent, timestamp = ts, executed = False\<rparr>
      else None)"

text \<open>
  The body of \<^verbatim>\<open>lines.forEach\<close>, on the two output arrays and
  \<^verbatim>\<open>previousTimestamp\<close>. First its branch for a line with a timestamp.
\<close>

definition timestampedLine ::
  "nat \<Rightarrow> nat \<Rightarrow> string \<Rightarrow> Action list \<Rightarrow> SpeechSegment list \<Rightarrow> int
     \<Rightarrow> Action list \<times> SpeechSegment list \<times> int" where
  "timestampedLine minutes seconds line acts sp previousTimestamp =
     (let ts = (int minutes * 60 + int seconds) * 1000;
          content = trim (drop 7 line);
          actionMatches = matchCommands content;
          speechText = trim (stripCommands content)
      in if actionMatches \<noteq> [] then
           (acts @ List.map_filter (toAction ts) actionMatches,
            (if speechText \<noteq> []
             then sp @ [\<lparr>text_s = speechText, timestamp_s = ts,
                         duration = Some (ts - previousTimestamp)\<rparr>]
             else sp),
            ts)
         else
           (acts,
            sp @ [\<lparr>text_s = content, timestamp_s = ts, duration = Some (ts - previousTimestamp)\<rparr>],
            ts))"

fun parseLine ::
  "string \<Rightarrow> Action list \<times> SpeechSegment list \<times> int \<Rightarrow> Action list \<times> SpeechSegment list \<times> int" where
  "parseLine line (acts, sp, previousTimestamp) =
     (if trim line = [] then (acts, sp, previousTimestamp)
      else
        (case timestampMatch line of
           Some ms \<Rightarrow> timestampedLine (fst ms) (snd ms) line acts sp previousTimestamp
         | None \<Rightarrow>
             (acts,
              sp @ [\<lparr>text_s = trim line, timestamp_s = previousTimestamp, duration = None\<rparr>],
              previousTimestamp)))"

record ParsedResponse =
  actions_r :: "Action list"
  speech_r :: "SpeechSegment list"

definition parseResponse :: "string \<Rightarrow> ParsedResponse" where
  "parseResponse response =
     (case fold parseLine (split_lines response) ([], [], 0) of
        (acts, sp, previousTimestamp) \<Rightarrow> \<lparr>actions_r = acts, speech_r = sp\<rparr>)"

text \<open>
  The older copy of the class differs in \<^verbatim>\<open>parseResponse\<close> at two places: it has no
  \<^verbatim>\<open>return\<close> for blank lines at the top of the loop body, and it pushes an action for
  every brace group, without the test of the content.
\<close>

definition toActionOld :: "int \<Rightarrow> string \<Rightarrow> Action" where
  "toActionOld ts actionText =
     (let (ty, actionContent) = classify actionText in
      \<lparr>type = ty, content = actionContent, timestamp = ts, executed = False\<rparr>)"

definition timestampedLineOld ::
  "nat \<Rightarrow> nat \<Rightarrow> string \<Rightarrow> Action list \<Rightarrow> SpeechSegment list \<Rightarrow> int
     \<Rightarrow> Action list \<times> SpeechSegment list \<times> int" where
  "timestampedLineOld minutes seconds line acts sp previousTimestamp =
     (let ts = (int minutes * 60 + int seconds) * 1000;
          content = trim (drop 7 line);
          actionMatches = matchCommands content;
          speechText = trim (stripCommands content)
      in if actionMatches \<noteq> [] then
           (acts @ map (toActionOld ts) actionMatches,
            (if speechText \<noteq> []
             then sp @ [\<lparr>text_s = speechText, timestamp_s = ts,
                         duration = Some (ts - previousTimestamp)\<rparr>]
             else sp),
            ts)
         else
           (acts,
            sp @ [\<lparr>text_s = content, timestamp_s = ts, duration = Some (ts - previousTimestamp)\<rparr>],
            ts))"

fun parseLineOld ::
  "string \<Rightarrow> Action list \<times> SpeechSegment list \<times> int \<Rightarrow> Action list \<times> SpeechSegment list \<times> int" where
  "parseLineOld line (acts, sp, previousTimestamp) =
     (case timestampMatch line of
        Some ms \<Rightarrow> timestampedLineOld (fst ms) (snd ms) line acts sp previousTimestamp
      | None \<Rightarrow>
          if trim line \<noteq> []
          then (acts,
                sp @ [\<lparr>text_s = trim line, timestamp_s = previousTimestamp, duration = None\<rparr>],
                previousTimestamp)
          else (acts, sp, previousTimestamp))"

definition parseResponseOld :: "string \<Rightarrow> ParsedResponse" where
  "parseResponseOld response =
     (case fold parseLineOld (split_lines response) ([], [], 0) of
        (acts, sp, previousTimestamp) \<Rightarrow> \<lparr>actions_r = acts, speech_r = sp\<rparr>)"

section \<open>The scheduler\<close>

text \<open>The \<^verbatim>\<open>switch (action.type)\<close> of \<^verbatim>\<open>checkActions\<close>: the template strings.\<close>

definition actionText :: "Action \<Rightarrow> string" where
  "actionText action =
     (case type action of
        Write \<Rightarrow> ''{write: '' @ [CHR 0x22] @ content action @ [CHR 0x22] @ ''}''
      | Draw \<Rightarrow> ''{draw:'' @ content action @ ''}''
      | Highlight \<Rightarrow> ''{highlight: '' @ [CHR 0x22] @ content action @ [CHR 0x22] @ ''}''
      | Erase \<Rightarrow> ''{erase: '' @ [CHR 0x22] @ content action @ [CHR 0x22] @ ''}''
      | Newpage \<Rightarrow> ''{newpage: '' @ [CHR 0x22] @ content action @ [CHR 0x22] @ ''}'')"

text \<open>
  \<^verbatim>\<open>[...this.actions].sort((a, b) => a.timestamp - b.timestamp)\<close>: a copy of the array
  that shares the Action objects, sorted by timestamp. The sort of ECMAScript is stable,
  as the insertion sort \<^const>\<open>sort_key\<close> is. An object is its index in
  \<^verbatim>\<open>this.actions\<close> paired with its current fields.
\<close>

definition sortedActions :: "Action list \<Rightarrow> (nat \<times> Action) list" where
  "sortedActions as = sort_key (\<lambda>p. timestamp (snd p)) (enumerate 0 as)"

text \<open>
  The \<^verbatim>\<open>for (const action of sortedActions)\<close> loop up to its \<^verbatim>\<open>break\<close>: the first
  object that is not executed and due.
\<close>

definition dueAction :: "int \<Rightarrow> Action list \<Rightarrow> (nat \<times> Action) option" where
  "dueAction elapsedTime as =
     find (\<lambda>p. \<not> executed (snd p) \<and> timestamp (snd p) \<le> elapsedTime) (sortedActions as)"

definition minActionSpacing :: int where
  "minActionSpacing = 800"

text \<open>
  The body of the loop for the selected object: buffer or trigger, then
  \<^verbatim>\<open>action.executed = true\<close> on the shared object.
\<close>

definition claimAction ::
  "int \<Rightarrow> nat \<times> Action \<Rightarrow> ActionSynchronizer \<Rightarrow> effect list \<times> ActionSynchronizer" where
  "claimAction elapsedTime p s =
     (let timeSinceLastAction = elapsedTime - lastActionTime s;
          (es, s') =
            (if processingAction s \<or> (lastActionTime s > 0 \<and> timeSinceLastAction < minActionSpacing)
             then ([], s\<lparr>actionBuffer := actionBuffer s @ [actionText (snd p)]\<rparr>)
             else ([ActionCallback (actionText (snd p))],
                   s\<lparr>processingAction := True, lastActionTime := elapsedTime\<rparr>))
      in (es, s'\<lparr>actions := (actions s')[fst p := (snd p)\<lparr>executed := True\<rparr>]\<rparr>))"

text \<open>The end of \<^verbatim>\<open>checkActions\<close>: completion, or the next timer.\<close>

definition allActionsProcessed :: "ActionSynchronizer \<Rightarrow> bool" where
  "allActionsProcessed s \<longleftrightarrow>
     list_all executed (actions s) \<and> actionBuffer s = [] \<and> \<not> processingAction s"

definition finishCheck :: "bool \<Rightarrow> ActionSynchronizer \<Rightarrow> effect list \<times> ActionSynchronizer" where
  "finishCheck actionFound s =
     (if allActionsProcessed s \<and> actions s \<noteq> [] then ([OnComplete], s\<lparr>isPlaying := False\<rparr>)
      else if isPlaying s then ([SetTimeout (if actionFound then 500 else 250)], s)
      else ([], s))"

text \<open>\<^verbatim>\<open>checkActions\<close>, with \<open>now\<close> the value of \<^verbatim>\<open>Date.now()\<close>.\<close>

definition checkActions :: "int \<Rightarrow> ActionSynchronizer \<Rightarrow> effect list \<times> ActionSynchronizer" where
  "checkActions now s =
     (if \<not> isPlaying s then ([], s)
      else
        let elapsedTime = now - startTime s in
        if processingAction s then ([SetTimeout 250], s)
        else
          (case dueAction elapsedTime (actions s) of
             None \<Rightarrow> finishCheck False s
           | Some p \<Rightarrow>
               let (es, s1) = claimAction elapsedTime p s;
                   (es', s2) = finishCheck True s1
               in (es @ es', s2)))"

text \<open>
  \<^verbatim>\<open>notifyActionComplete\<close>. \<^verbatim>\<open>shift()\<close> removes the head of the buffer;
  \<^verbatim>\<open>if (nextAction)\<close> is false for the empty string.
\<close>

definition notifyActionComplete ::
  "int \<Rightarrow> ActionSynchronizer \<Rightarrow> effect list \<times> ActionSynchronizer" where
  "notifyActionComplete now s =
     (let s0 = s\<lparr>processingAction := False\<rparr> in
      case actionBuffer s0 of
        nextAction # rest \<Rightarrow>
          if nextAction \<noteq> []
          then ([ActionCallback nextAction], s0\<lparr>actionBuffer := rest, processingAction := True\<rparr>)
          else ([], s0\<lparr>actionBuffer := rest\<rparr>)
      | [] \<Rightarrow> checkActions now s0)"

text \<open>
  \<^verbatim>\<open>start\<close> reads the clock twice: \<open>t0\<close> for \<^verbatim>\<open>startTime\<close>, \<open>t1\<close> inside the first
  \<^verbatim>\<open>checkActions\<close>.
\<close>

definition start :: "int \<Rightarrow> int \<Rightarrow> ActionSynchronizer \<Rightarrow> effect list \<times> ActionSynchronizer" where
  "start t0 t1 s = checkActions t1 (s\<lparr>startTime := t0, isPlaying := True, lastActionTime := 0\<rparr>)"

definition stop :: "ActionSynchronizer \<Rightarrow> ActionSynchronizer" where
  "stop s = s\<lparr>isPlaying := False, processingAction := False, actionBuffer := []\<rparr>"

definition reset :: "ActionSynchronizer \<Rightarrow> ActionSynchronizer" where
  "reset s = s\<lparr>actions := [], speech := [], isPlaying := False,
               processingAction := False, actionBuffer := []\<rparr>"

text \<open>The state of a freshly constructed object (the field initialisers).\<close>

definition newSynchronizer :: ActionSynchronizer where
  "newSynchronizer = \<lparr>actions = [], speech = [], startTime = 0, isPlaying = False,
     processingAction = False, lastActionTime = 0, actionBuffer = []\<rparr>"

definition loadResponse :: "string \<Rightarrow> ActionSynchronizer \<Rightarrow> ActionSynchronizer" where
  "loadResponse response s =
     (let parsed = parseResponse response in
      s\<lparr>actions := actions_r parsed, speech := speech_r parsed,
        actionBuffer := [], processingAction := False\<rparr>)"

definition getRemainingActions :: "ActionSynchronizer \<Rightarrow> Action list" where
  "getRemainingActions s = filter (\<lambda>action. \<not> executed action) (actions s)"

record Progress =
  elapsedTime :: int
  totalActions :: nat
  completedActions :: nat
  remainingActions :: nat

definition getProgress :: "int \<Rightarrow> ActionSynchronizer \<Rightarrow> Progress" where
  "getProgress now s =
     (let total = length (actions s);
          completed = length (filter executed (actions s))
      in \<lparr>elapsedTime = (if isPlaying s then now - startTime s else 0),
          totalActions = total,
          completedActions = completed,
          remainingActions = total - completed\<rparr>)"

subsection \<open>Schedules\<close>

text \<open>
  The two entry points that run while a timeline plays: a timer set by \<^verbatim>\<open>checkActions\<close>
  comes due (\<open>Tick\<close>), or the executor reports completion (\<open>Notify\<close>). Each carries the
  clock reading of that call. A schedule is any list of them; \<open>run\<close> returns, for every
  event, the effects it caused.
\<close>

datatype event = Tick int | Notify int

fun step :: "event \<Rightarrow> ActionSynchronizer \<Rightarrow> effect list \<times> ActionSynchronizer" where
  "step (Tick now) s = checkActions now s"
| "step (Notify now) s = notifyActionComplete now s"

fun run :: "ActionSynchronizer \<Rightarrow> event list \<Rightarrow> (event \<times> effect list) list" where
  "run s [] = []"
| "run s (e # es) = (e, fst (step e s)) # run (snd (step e s)) es"

fun final :: "ActionSynchronizer \<Rightarrow> event list \<Rightarrow> ActionSynchronizer" where
  "final s [] = s"
| "final s (e # es) = final (snd (step e s)) es"

fun isTick :: "event \<Rightarrow> bool" where
  "isTick (Tick now) = True"
| "isTick (Notify now) = False"

text \<open>The commands handed to the executor over a whole run, in order.\<close>

fun dispatched :: "effect list \<Rightarrow> string list" where
  "dispatched [] = []"
| "dispatched (ActionCallback c # es) = c # dispatched es"
| "dispatched (e # es) = dispatched es"

definition executorCalls :: "(event \<times> effect list) list \<Rightarrow> string list" where
  "executorCalls tr = concat (map (\<lambda>p. dispatched (snd p)) tr)"

definition completions :: "(event \<times> effect list) list \<Rightarrow> nat" where
  "completions tr = length (filter (\<lambda>e. e = OnComplete) (concat (map snd tr)))"

text \<open>
  Single flight over a trace: \<open>b\<close> tells whether an invocation of the executor is still
  waiting for its \<^verbatim>\<open>notifyActionComplete\<close>. A call of the executor is allowed only when
  none is waiting; it makes one wait; the call of \<^verbatim>\<open>notifyActionComplete\<close> ends the
  wait before its own effects happen.
\<close>

fun flightOk :: "bool \<Rightarrow> effect list \<Rightarrow> bool \<times> bool" where
  "flightOk b [] = (True, b)"
| "flightOk b (ActionCallback c # es) = (if b then (False, b) else flightOk True es)"
| "flightOk b (e # es) = flightOk b es"

fun singleFlight :: "bool \<Rightarrow> (event \<times> effect list) list \<Rightarrow> bool" where
  "singleFlight b [] = True"
| "singleFlight b ((Tick now, es) # tr) =
     (fst (flightOk b es) \<and> singleFlight (snd (flightOk b es)) tr)"
| "singleFlight b ((Notify now, es) # tr) =
     (fst (flightOk False es) \<and> singleFlight (snd (flightOk False es)) tr)"


text \<open>
  The poll tick that selects an action: \<^verbatim>\<open>checkActions\<close> reaches its loop (it is
  playing and nothing is in flight) and the loop finds a due object.
\<close>

definition selects :: "int \<Rightarrow> ActionSynchronizer \<Rightarrow> (nat \<times> Action) option" where
  "selects now s =
     (if isPlaying s \<and> \<not> processingAction s then dueAction (now - startTime s) (actions s)
      else None)"

section \<open>The voice activity detector\<close>

text \<open>
  \<^verbatim>\<open>detectSilence\<close> is a closure created inside \<^verbatim>\<open>startRecording\<close>. What it reads falls
  into three kinds.

  The React state values \<^verbatim>\<open>isUserSpeaking\<close>, \<^verbatim>\<open>isSpeaking\<close>, \<^verbatim>\<open>aiSpeakingCooldown\<close>,
  \<^verbatim>\<open>lessonInProgress\<close> and \<^verbatim>\<open>isConnected\<close> are constants of the render in which
  \<^verbatim>\<open>startRecording\<close> ran: the effect that calls it depends on \<^verbatim>\<open>isConnected\<close> only, and
  \<^verbatim>\<open>requestAnimationFrame(detectSilence)\<close> enters the same closure again. A call of
  \<^verbatim>\<open>setIsUserSpeaking\<close> changes the state of the page, not these constants. They are the
  record \<open>Closure\<close>, which is the same for every frame of a run.

  The refs \<^verbatim>\<open>silenceDetectionDisabledRef\<close> and \<^verbatim>\<open>aiResponseInProgressRef\<close>, the socket and
  the analyser are read afresh in every call: the record \<open>Frame\<close>. \<open>average\<close> is the number
  computed from the analyser data.

  The two counters are variables of \<^verbatim>\<open>startRecording\<close> that the closure updates, and the
  timer handle lives in \<^verbatim>\<open>userSpeakingTimeoutRef\<close>: the record \<open>Detector\<close>.
\<close>

record Closure =
  isUserSpeaking :: bool
  isSpeaking :: bool
  aiSpeakingCooldown :: bool
  lessonInProgress :: bool
  isConnected :: bool

record Frame =
  silenceDetectionDisabled :: bool
  average :: real
  aiResponseInProgress :: bool
  wsOpen :: bool

text \<open>
  A timer is its handle. \<open>pendingTimeouts\<close> holds the handles of the timers that are
  armed and have neither fired nor been cleared; \<open>nextHandle\<close> is the next handle
  \<^verbatim>\<open>setTimeout\<close> returns.
\<close>

record Detector =
  silenceFrames :: nat
  speakingFrames :: nat
  userSpeakingTimeout :: "nat option"
  pendingTimeouts :: "nat list"
  nextHandle :: nat

datatype signal = SetIsUserSpeaking bool | Send string | RequestAnimationFrame

definition silenceThreshold :: real where
  "silenceThreshold = 4 / 100"

definition maxSilenceFrames :: nat where
  "maxSilenceFrames = 60"

definition minSpeakingFrames :: nat where
  "minSpeakingFrames = 15"

definition newDetector :: Detector where
  "newDetector = \<lparr>silenceFrames = 0, speakingFrames = 0, userSpeakingTimeout = None,
     pendingTimeouts = [], nextHandle = 1\<rparr>"

text \<open>
  The closure of a page whose socket opens before any audio or lesson has arrived: the
  state values are the initial ones of \<^verbatim>\<open>useState\<close>, and \<^verbatim>\<open>isConnected\<close> is true, as the
  effect requires.
\<close>

definition atMount :: Closure where
  "atMount = \<lparr>isUserSpeaking = False, isSpeaking = False, aiSpeakingCooldown = False,
     lessonInProgress = False, isConnected = True\<rparr>"

text \<open>
  The composite guard of the speech branch, apart from the frame count, as the closure
  reads it: three constants and one ref.
\<close>

definition guarded :: "Closure \<Rightarrow> Frame \<Rightarrow> bool" where
  "guarded cl f \<longleftrightarrow>
     isSpeaking cl \<or> aiSpeakingCooldown cl \<or> aiResponseInProgress f \<or> lessonInProgress cl"

definition loud :: "Frame \<Rightarrow> bool" where
  "loud f \<longleftrightarrow> average f > silenceThreshold"

text \<open>The branch \<^verbatim>\<open>average > silenceThreshold\<close>.\<close>

definition speechBranch :: "Closure \<Rightarrow> Frame \<Rightarrow> Detector \<Rightarrow> signal list \<times> Detector" where
  "speechBranch cl f d =
     (let d1 = d\<lparr>silenceFrames := 0, speakingFrames := speakingFrames d + 1\<rparr> in
      if speakingFrames d1 \<ge> minSpeakingFrames \<and> \<not> isUserSpeaking cl \<and> \<not> isSpeaking cl
         \<and> \<not> aiSpeakingCooldown cl \<and> \<not> aiResponseInProgress f \<and> \<not> lessonInProgress cl
      then (SetIsUserSpeaking True # (if wsOpen f then [Send ''INT''] else []), d1)
      else ([], d1))"

text \<open>
  The other branch. \<^verbatim>\<open>clearTimeout\<close> of the handle in the ref, when there is one, then
  \<^verbatim>\<open>setTimeout(..., 500)\<close>, whose handle goes into the ref.
\<close>

definition silenceBranch :: "Closure \<Rightarrow> Frame \<Rightarrow> Detector \<Rightarrow> signal list \<times> Detector" where
  "silenceBranch cl f d =
     (let d1 = d\<lparr>speakingFrames := 0, silenceFrames := silenceFrames d + 1\<rparr> in
      if silenceFrames d1 > maxSilenceFrames \<and> isUserSpeaking cl
      then
        (let cleared = (case userSpeakingTimeout d1 of
                          Some h \<Rightarrow> removeAll h (pendingTimeouts d1)
                        | None \<Rightarrow> pendingTimeouts d1)
         in ([SetIsUserSpeaking False],
             d1\<lparr>userSpeakingTimeout := Some (nextHandle d1),
                pendingTimeouts := cleared @ [nextHandle d1],
                nextHandle := nextHandle d1 + 1\<rparr>))
      else ([], d1))"

definition detectSilence :: "Closure \<Rightarrow> Frame \<Rightarrow> Detector \<Rightarrow> signal list \<times> Detector" where
  "detectSilence cl f d =
     (if silenceDetectionDisabled f then ([RequestAnimationFrame], d)
      else
        (case (if average f > silenceThreshold then speechBranch cl f d else silenceBranch cl f d) of
           (sigs, d') \<Rightarrow> (sigs @ (if isConnected cl then [RequestAnimationFrame] else []), d')))"

text \<open>
  The callback of the debounce timer with handle \<open>h\<close> comes due, 500 ms after it was
  armed; \<open>sockOpen\<close> is the state of the socket at that moment. A timer that was cleared,
  or has fired, does nothing.
\<close>

definition timeoutElapsed :: "nat \<Rightarrow> bool \<Rightarrow> Detector \<Rightarrow> signal list \<times> Detector" where
  "timeoutElapsed h sockOpen d =
     (if h \<in> set (pendingTimeouts d)
      then ((if sockOpen then [Send ''EOS''] else []),
            d\<lparr>pendingTimeouts := removeAll h (pendingTimeouts d)\<rparr>)
      else ([], d))"

datatype input = Sample Frame | Elapsed nat bool

fun react :: "Closure \<Rightarrow> input \<Rightarrow> Detector \<Rightarrow> signal list \<times> Detector" where
  "react cl (Sample f) d = detectSilence cl f d"
| "react cl (Elapsed h sockOpen) d = timeoutElapsed h sockOpen d"

text \<open>
  All signals of a sequence of inputs to one closure, in order, and the detector after
  it.
\<close>

fun signals :: "Closure \<Rightarrow> Detector \<Rightarrow> input list \<Rightarrow> signal list" where
  "signals cl d [] = []"
| "signals cl d (i # is) = fst (react cl i d) @ signals cl (snd (react cl i d)) is"

fun after :: "Closure \<Rightarrow> Detector \<Rightarrow> input list \<Rightarrow> Detector" where
  "after cl d [] = d"
| "after cl d (i # is) = after cl (snd (react cl i d)) is"

definition interrupts :: "signal list \<Rightarrow> nat" where
  "interrupts sigs = length (filter (\<lambda>x. x = Send ''INT'') sigs)"

definition endsOfSpeech :: "signal list \<Rightarrow> nat" where
  "endsOfSpeech sigs = length (filter (\<lambda>x. x = Send ''EOS'') sigs)"

section \<open>A lesson used in the examples\<close>

text \<open>
  Three commands, two of them due in the same second; \<open>playing\<close> is the synchronizer
  after \<^verbatim>\<open>loadResponse(lesson)\<close> and \<^verbatim>\<open>start()\<close> at clock reading 0. \<open>idle\<close> plays a
  script that has narration and no command.
\<close>

definition lesson :: string where
  "lesson = ''[00:01] {write: '' @ [CHR 0x22] @ ''A'' @ [CHR 0x22] @ ''}'' @ [CHR 0x0A]
          @ ''[00:01] {write: '' @ [CHR 0x22] @ ''B'' @ [CHR 0x22] @ ''}'' @ [CHR 0x0A]
          @ ''[00:02] {draw:circle}''"

definition playing :: ActionSynchronizer where
  "playing = snd (start 0 0 (loadResponse lesson newSynchronizer))"

definition idle :: ActionSynchronizer where
  "idle = snd (start 0 0 (loadResponse ''[00:01] Hello'' newSynchronizer))"

section \<open>Frames used in the examples\<close>

text \<open>
  \<open>userTalks\<close>: the microphone is above the threshold, both refs are clear. \<open>userQuiet\<close>:
  the same, below the threshold. \<open>lessonRuns\<close>: above the threshold while a response plays
  (\<^verbatim>\<open>aiResponseInProgressRef\<close> is set until \<^verbatim>\<open>onComplete\<close>) and detection has been enabled
  again. \<open>responseStarts\<close>: above the threshold right after \<^verbatim>\<open>prepareResponsePlayback\<close>,
  which sets \<^verbatim>\<open>aiResponseInProgressRef\<close> and \<^verbatim>\<open>silenceDetectionDisabledRef\<close> together.
  \<open>detectionOff\<close>: above the threshold when the response is over (\<^verbatim>\<open>onComplete\<close> has cleared
  \<^verbatim>\<open>aiResponseInProgressRef\<close>) and detection has not been enabled again.
\<close>

definition userTalks :: Frame where
  "userTalks = \<lparr>silenceDetectionDisabled = False, average = 1 / 2,
     aiResponseInProgress = False, wsOpen = True\<rparr>"

definition userQuiet :: Frame where
  "userQuiet = \<lparr>silenceDetectionDisabled = False, average = 0,
     aiResponseInProgress = False, wsOpen = True\<rparr>"




definition samples :: "Frame list \<Rightarrow> input list" where
  "samples fs = map Sample fs"

section \<open>Scripts of the documented grammar\<close>

text \<open>
  The grammar of the specification, written down independently of the parser: a line
  is a timestamp \<^verbatim>\<open>[MM:SS]\<close> with two-digit fields, followed by pieces of narration and
  commands of the five forms \<^verbatim>\<open>{write: "STRING"}\<close>, \<^verbatim>\<open>{draw:TOKEN}\<close>,
  \<^verbatim>\<open>{highlight: "STRING"}\<close>, \<^verbatim>\<open>{erase: "STRING"}\<close>, \<^verbatim>\<open>{newpage: "STRING"}\<close>; a script is
  its lines joined by line feeds.
\<close>

datatype piece = Narration string | Command ActionType string

record scriptLine =
  minutes :: nat
  seconds :: nat
  pieces :: "piece list"

definition twoDigits :: "nat \<Rightarrow> string" where
  "twoDigits n = [char_of (48 + n div 10), char_of (48 + n mod 10)]"

definition commandText :: "ActionType \<Rightarrow> string \<Rightarrow> string" where
  "commandText ty S =
     (case ty of
        Write \<Rightarrow> ''{write: '' @ [CHR 0x22] @ S @ [CHR 0x22] @ ''}''
      | Draw \<Rightarrow> ''{draw:'' @ S @ ''}''
      | Highlight \<Rightarrow> ''{highlight: '' @ [CHR 0x22] @ S @ [CHR 0x22] @ ''}''
      | Erase \<Rightarrow> ''{erase: '' @ [CHR 0x22] @ S @ [CHR 0x22] @ ''}''
      | Newpage \<Rightarrow> ''{newpage: '' @ [CHR 0x22] @ S @ [CHR 0x22] @ ''}'')"

fun pieceText :: "piece \<Rightarrow> string" where
  "pieceText (Narration w) = w"
| "pieceText (Command ty S) = commandText ty S"

definition lineText :: "scriptLine \<Rightarrow> string" where
  "lineText l =
     ''['' @ twoDigits (minutes l) @ '':'' @ twoDigits (seconds l) @ '']''
       @ concat (map pieceText (pieces l))"

fun joinLines :: "string list \<Rightarrow> string" where
  "joinLines [] = []"
| "joinLines [l] = l"
| "joinLines (l # ls) = l @ [CHR 0x0A] @ joinLines ls"

definition scriptText :: "scriptLine list \<Rightarrow> string" where
  "scriptText ls = joinLines (map lineText ls)"

text \<open>
  The lines for which the round trip holds: fields below 100; narration without opening
  brace and line feed; a quoted string that is not empty and has no double quote, no
  closing brace and no line feed; a draw token that is a non-empty run of \<^verbatim>\<open>a-z\<close>.
\<close>

definition validString :: "string \<Rightarrow> bool" where
  "validString S \<longleftrightarrow>
     S \<noteq> [] \<and> CHR 0x22 \<notin> set S \<and> CHR ''}'' \<notin> set S \<and> CHR 0x0A \<notin> set S"

definition validToken :: "string \<Rightarrow> bool" where
  "validToken S \<longleftrightarrow> S \<noteq> [] \<and> (\<forall>c \<in> set S. isLower c)"

fun validPiece :: "piece \<Rightarrow> bool" where
  "validPiece (Narration w) \<longleftrightarrow> CHR ''{'' \<notin> set w \<and> CHR 0x0A \<notin> set w"
| "validPiece (Command Draw S) \<longleftrightarrow> validToken S"
| "validPiece (Command ty S) \<longleftrightarrow> validString S"

definition validLine :: "scriptLine \<Rightarrow> bool" where
  "validLine l \<longleftrightarrow> minutes l < 100 \<and> seconds l < 100 \<and> (\<forall>p \<in> set (pieces l). validPiece p)"

text \<open>What a script stands for, read off its construction.\<close>

definition lineTime :: "scriptLine \<Rightarrow> int" where
  "lineTime l = (int (minutes l) * 60 + int (seconds l)) * 1000"

fun pieceAction :: "int \<Rightarrow> piece \<Rightarrow> Action list" where
  "pieceAction ts (Narration w) = []"
| "pieceAction ts (Command ty S) = [\<lparr>type = ty, content = S, timestamp = ts, executed = False\<rparr>]"

fun pieceCommand :: "piece \<Rightarrow> string list" where
  "pieceCommand (Narration w) = []"
| "pieceCommand (Command ty S) = [commandText ty S]"

fun pieceNarration :: "piece \<Rightarrow> string" where
  "pieceNarration (Narration w) = w"
| "pieceNarration (Command ty S) = []"

definition lineActions :: "scriptLine \<Rightarrow> Action list" where
  "lineActions l = concat (map (pieceAction (lineTime l)) (pieces l))"

definition lineCommands :: "scriptLine \<Rightarrow> string list" where
  "lineCommands l = concat (map pieceCommand (pieces l))"

definition narration :: "scriptLine \<Rightarrow> string" where
  "narration l = trim (concat (map pieceNarration (pieces l)))"

text \<open>
  The speech of a line: its narration, trimmed, at the line's time, lasting since the
  time of the line before (0 at the start). A line that has commands and no narration
  has no speech; a line that has neither has a segment with the empty text.
\<close>

definition lineSpeech :: "int \<Rightarrow> scriptLine \<Rightarrow> SpeechSegment list" where
  "lineSpeech previous l =
     (if lineCommands l \<noteq> [] \<and> narration l = [] then []
      else [\<lparr>text_s = narration l, timestamp_s = lineTime l,
              duration = Some (lineTime l - previous)\<rparr>])"

fun scriptSpeech :: "int \<Rightarrow> scriptLine list \<Rightarrow> SpeechSegment list" where
  "scriptSpeech previous [] = []"
| "scriptSpeech previous (l # ls) = lineSpeech previous l @ scriptSpeech (lineTime l) ls"

definition scriptActions :: "scriptLine list \<Rightarrow> Action list" where
  "scriptActions ls = concat (map lineActions ls)"

definition scriptCommands :: "scriptLine list \<Rightarrow> string list" where
  "scriptCommands ls = concat (map lineCommands ls)"

text \<open>The five keywords of the \<^verbatim>\<open>startsWith\<close> chain.\<close>

definition knownKeyword :: "string \<Rightarrow> bool" where
  "knownKeyword t \<longleftrightarrow>
     prefix ''{write:'' t \<or> prefix ''{draw:'' t \<or> prefix ''{highlight:'' t
     \<or> prefix ''{erase:'' t \<or> prefix ''{newpage:'' t"

text \<open>
  What the parser sees of one line of a response: the time of its timestamp, the brace
  groups it finds behind the timestamp (none in a line without timestamp), and whether
  the line has no timestamp and is not blank.
\<close>

definition lineTimestamp :: "string \<Rightarrow> int" where
  "lineTimestamp line =
     (case timestampMatch line of
        Some ms \<Rightarrow> (int (fst ms) * 60 + int (snd ms)) * 1000
      | None \<Rightarrow> 0)"

definition lineGroups :: "string \<Rightarrow> string list" where
  "lineGroups line =
     (case timestampMatch line of
        Some ms \<Rightarrow> matchCommands (trim (drop 7 line))
      | None \<Rightarrow> [])"




text \<open>
  Scripts used in the examples: the scenario of the specification; a \<^verbatim>\<open>write\<close> of the
  empty string; a \<^verbatim>\<open>write\<close> whose string holds braces.
\<close>

definition scenario :: "scriptLine list" where
  "scenario = [\<lparr>minutes = 0, seconds = 0, pieces = [Narration '' Hello '', Command Write ''Hi'']\<rparr>,
               \<lparr>minutes = 0, seconds = 5, pieces = [Command Draw ''circle'']\<rparr>]"

definition emptyWrite :: "scriptLine list" where
  "emptyWrite = [\<lparr>minutes = 0, seconds = 1, pieces = [Command Write []]\<rparr>]"

definition bracedWrite :: "scriptLine list" where
  "bracedWrite = [\<lparr>minutes = 0, seconds = 1, pieces = [Command Write ''x^{2}'']\<rparr>]"




section \<open>Properties of the script parser\<close>

subsection \<open>Brace groups\<close>

lemma takeWhile_upto: "c \<notin> set b \<Longrightarrow> takeWhile (\<lambda>x. x \<noteq> c) (b @ c # s) = b"
  by (induction b) auto

lemma dropWhile_upto: "c \<notin> set b \<Longrightarrow> dropWhile (\<lambda>x. x \<noteq> c) (b @ c # s) = c # s"
  by (induction b) auto


lemma stripCommands_skip: "c \<noteq> CHR ''{'' \<Longrightarrow> stripCommands (c # cs) = c # stripCommands cs"
  by simp

lemma matchCommands_narration:
  "CHR ''{'' \<notin> set w \<Longrightarrow> matchCommands (w @ s) = matchCommands s"
  by (induction w) auto

lemma stripCommands_narration:
  "CHR ''{'' \<notin> set w \<Longrightarrow> stripCommands (w @ s) = w @ stripCommands s"
  by (induction w) auto

lemma matchCommands_group:
  assumes "b \<noteq> []" "CHR ''}'' \<notin> set b"
  shows "matchCommands (CHR ''{'' # b @ CHR ''}'' # s) = (CHR ''{'' # b @ ''}'') # matchCommands s"
proof -
  from assms have "takeWhile (\<lambda>x. x \<noteq> CHR ''}'') (b @ CHR ''}'' # s) = b"
    and "dropWhile (\<lambda>x. x \<noteq> CHR ''}'') (b @ CHR ''}'' # s) = CHR ''}'' # s"
    by (simp_all add: takeWhile_upto dropWhile_upto)
  with assms(1) show ?thesis by simp
qed

lemma stripCommands_group:
  assumes "b \<noteq> []" "CHR ''}'' \<notin> set b"
  shows "stripCommands (CHR ''{'' # b @ CHR ''}'' # s) = stripCommands s"
proof -
  from assms have "takeWhile (\<lambda>x. x \<noteq> CHR ''}'') (b @ CHR ''}'' # s) = b"
    and "dropWhile (\<lambda>x. x \<noteq> CHR ''}'') (b @ CHR ''}'' # s) = CHR ''}'' # s"
    by (simp_all add: takeWhile_upto dropWhile_upto)
  with assms(1) show ?thesis by simp
qed

lemma matchCommands_no_close: "CHR ''}'' \<notin> set s \<Longrightarrow> matchCommands s = []"
proof (induction s)
  case Nil
  show ?case by simp
next
  case (Cons c cs)
  then have "dropWhile (\<lambda>x. x \<noteq> CHR ''}'') cs = []" by auto
  with Cons show ?case by simp
qed

lemma stripCommands_no_close: "CHR ''}'' \<notin> set s \<Longrightarrow> stripCommands s = s"
proof (induction s)
  case Nil
  show ?case by simp
next
  case (Cons c cs)
  then have "dropWhile (\<lambda>x. x \<noteq> CHR ''}'') cs = []" by auto
  with Cons show ?case by simp
qed

text \<open>Text without braces behind a string changes neither the groups nor what is left.\<close>

lemma matchCommands_tail:
  "CHR ''{'' \<notin> set w \<Longrightarrow> CHR ''}'' \<notin> set w \<Longrightarrow> matchCommands (s @ w) = matchCommands s"
proof (induction s rule: matchCommands.induct)
  case 1
  then show ?case by (simp add: matchCommands_no_close)
next
  case (2 c cs)
  let ?P = "\<lambda>x. x \<noteq> CHR ''}''"
  show ?case
  proof (cases "CHR ''}'' \<in> set cs")
    case True
    then have t: "takeWhile ?P (cs @ w) = takeWhile ?P cs"
      and d: "dropWhile ?P (cs @ w) = dropWhile ?P cs @ w"
      and n: "dropWhile ?P cs \<noteq> []"
      by (simp_all add: takeWhile_append1 dropWhile_append1)
    show ?thesis
    proof (cases "c = CHR ''{'' \<and> takeWhile ?P cs \<noteq> []")
      case True
      with n t d 2 show ?thesis by simp
    next
      case False
      with n t d 2 show ?thesis by auto
    qed
  next
    case False
    with "2.prems" have "CHR ''}'' \<notin> set (cs @ w)" by simp
    then have "matchCommands (c # cs @ w) = []" "matchCommands (c # cs) = []"
      using False by (simp_all add: matchCommands_no_close)
    then show ?thesis by simp
  qed
qed

lemma stripCommands_tail:
  "CHR ''{'' \<notin> set w \<Longrightarrow> CHR ''}'' \<notin> set w \<Longrightarrow> stripCommands (s @ w) = stripCommands s @ w"
proof (induction s rule: stripCommands.induct)
  case 1
  then show ?case by (simp add: stripCommands_no_close)
next
  case (2 c cs)
  let ?P = "\<lambda>x. x \<noteq> CHR ''}''"
  show ?case
  proof (cases "CHR ''}'' \<in> set cs")
    case True
    then have t: "takeWhile ?P (cs @ w) = takeWhile ?P cs"
      and d: "dropWhile ?P (cs @ w) = dropWhile ?P cs @ w"
      and n: "dropWhile ?P cs \<noteq> []"
      by (simp_all add: takeWhile_append1 dropWhile_append1)
    show ?thesis
    proof (cases "c = CHR ''{'' \<and> takeWhile ?P cs \<noteq> []")
      case True
      with n t d 2 show ?thesis by simp
    next
      case False
      with n t d 2 show ?thesis by auto
    qed
  next
    case False
    with "2.prems" have "CHR ''}'' \<notin> set (cs @ w)" by simp
    then have "stripCommands (c # cs @ w) = c # cs @ w" "stripCommands (c # cs) = c # cs"
      using False by (simp_all add: stripCommands_no_close)
    then show ?thesis by simp
  qed
qed

subsection \<open>Trimming\<close>

lemma white_no_brace: "isWhiteSpace c \<Longrightarrow> c \<noteq> CHR ''{'' \<and> c \<noteq> CHR ''}''"
  by (auto simp: isWhiteSpace_def)

lemma trim_white_left: "\<forall>c \<in> set w. isWhiteSpace c \<Longrightarrow> trim (w @ x) = trim x"
  by (simp add: trim_def dropWhile_append2)

lemma trim_white_right:
  assumes "\<forall>c \<in> set w. isWhiteSpace c"
  shows "trim (x @ w) = trim x"
proof (cases "\<forall>c \<in> set x. isWhiteSpace c")
  case True
  with assms have "dropWhile isWhiteSpace (x @ w) = []" "dropWhile isWhiteSpace x = []"
    by (simp_all add: dropWhile_eq_Nil_conv)
  then show ?thesis by (simp only: trim_def)
next
  case False
  then have "dropWhile isWhiteSpace (x @ w) = dropWhile isWhiteSpace x @ w"
    by (auto simp: dropWhile_append)
  with assms show ?thesis by (simp add: trim_def dropWhile_append)
qed

lemma trim_split:
  "\<exists>w1 w2. s = w1 @ trim s @ w2 \<and> (\<forall>c \<in> set w1. isWhiteSpace c) \<and> (\<forall>c \<in> set w2. isWhiteSpace c)"
proof -
  define u where "u = dropWhile isWhiteSpace s"
  define v where "v = rev u"
  have 1: "s = takeWhile isWhiteSpace s @ u" by (simp add: u_def)
  have "v = takeWhile isWhiteSpace v @ dropWhile isWhiteSpace v" by simp
  then have "rev v = rev (dropWhile isWhiteSpace v) @ rev (takeWhile isWhiteSpace v)"
    by (metis rev_append)
  then have 2: "u = trim s @ rev (takeWhile isWhiteSpace v)"
    by (simp add: trim_def u_def v_def)
  have 3: "\<forall>c \<in> set (takeWhile isWhiteSpace s). isWhiteSpace c"
    by (auto dest: set_takeWhileD)
  have 4: "\<forall>c \<in> set (rev (takeWhile isWhiteSpace v)). isWhiteSpace c"
    by (auto dest: set_takeWhileD)
  from 1 2 have "s = takeWhile isWhiteSpace s @ trim s @ rev (takeWhile isWhiteSpace v)"
    by metis
  with 3 4 show ?thesis by blast
qed

lemma matchCommands_trim: "matchCommands (trim s) = matchCommands s"
proof -
  define t where "t = trim s"
  from trim_split [of s] obtain w1 w2 where s: "s = w1 @ t @ w2"
    and w: "\<forall>c \<in> set w1. isWhiteSpace c" "\<forall>c \<in> set w2. isWhiteSpace c"
    unfolding t_def by blast
  from w have b: "CHR ''{'' \<notin> set w1" "CHR ''{'' \<notin> set w2" "CHR ''}'' \<notin> set w2"
    using white_no_brace by blast+
  have "matchCommands s = matchCommands (w1 @ t @ w2)" using s by (rule arg_cong)
  also have "\<dots> = matchCommands (t @ w2)"
    using b by (simp add: matchCommands_narration)
  also have "\<dots> = matchCommands t" using b by (simp add: matchCommands_tail)
  finally show ?thesis by (simp only: t_def)
qed

lemma stripCommands_trim: "trim (stripCommands (trim s)) = trim (stripCommands s)"
proof -
  define t where "t = trim s"
  from trim_split [of s] obtain w1 w2 where s: "s = w1 @ t @ w2"
    and w: "\<forall>c \<in> set w1. isWhiteSpace c" "\<forall>c \<in> set w2. isWhiteSpace c"
    unfolding t_def by blast
  from w have b: "CHR ''{'' \<notin> set w1" "CHR ''{'' \<notin> set w2" "CHR ''}'' \<notin> set w2"
    using white_no_brace by blast+
  have "stripCommands s = stripCommands (w1 @ t @ w2)" using s by (rule arg_cong)
  also have "\<dots> = w1 @ stripCommands (t @ w2)"
    using b by (simp add: stripCommands_narration)
  also have "\<dots> = w1 @ stripCommands t @ w2" using b by (simp add: stripCommands_tail)
  finally have "trim (stripCommands s) = trim (w1 @ stripCommands t @ w2)" by (rule arg_cong)
  also have "\<dots> = trim (stripCommands t)"
    using w trim_white_left [of w1 "stripCommands t @ w2"] trim_white_right [of w2 "stripCommands t"]
    by simp
  finally show ?thesis by (simp only: t_def)
qed

subsection \<open>What is left of a line has no brace group\<close>






subsection \<open>One command\<close>

lemma searchFrom_first: "attempt s = Some g \<Longrightarrow> searchFrom attempt s = Some g"
  by (cases s) auto

lemma quotedAttempt_command:
  assumes "CHR 0x22 \<notin> set S"
  shows "quotedAttempt kw (kw @ '' '' @ [CHR 0x22] @ S @ [CHR 0x22] @ ''}'' @ rest) = Some S"
proof -
  from assms have 2: "dropWhile (\<lambda>x. x \<noteq> CHR 0x22) (S @ CHR 0x22 # CHR ''}'' # rest)
            = CHR 0x22 # CHR ''}'' # rest"
    and 3: "takeWhile (\<lambda>x. x \<noteq> CHR 0x22) (S @ CHR 0x22 # CHR ''}'' # rest) = S"
    by (simp_all add: takeWhile_upto dropWhile_upto)
  show ?thesis by (simp add: quotedAttempt_def isWhiteSpace_def 2 3)
qed

lemma lower_not_close: "isLower c \<Longrightarrow> c \<noteq> CHR ''}'' \<and> c \<noteq> CHR 0x0A \<and> c \<noteq> CHR 0x22"
  by (auto simp: isLower_def)

lemma takeWhile_all: "\<forall>c \<in> set S. P c \<Longrightarrow> \<not> P x \<Longrightarrow> takeWhile P (S @ x # r) = S"
  by (induction S) auto

lemma dropWhile_all: "\<forall>c \<in> set S. P c \<Longrightarrow> \<not> P x \<Longrightarrow> dropWhile P (S @ x # r) = x # r"
  by (induction S) auto

lemma drawAttempt_command:
  assumes "validToken S"
  shows "drawAttempt (''{draw:'' @ S @ ''}'' @ rest) = Some S"
proof -
  have n: "\<not> isLower (CHR ''}'')" by (simp add: isLower_def)
  from assms have a: "\<forall>c \<in> set S. isLower c" "S \<noteq> []" by (simp_all add: validToken_def)
  from takeWhile_all [OF a(1) n] dropWhile_all [OF a(1) n] a(2)
  show ?thesis by (simp add: drawAttempt_def)
qed

lemma classify_command:
  assumes "validPiece (Command ty S)"
  shows "classify (commandText ty S) = (ty, S)"
proof (cases ty)
  case Write
  with assms have "CHR 0x22 \<notin> set S" by (simp add: validString_def)
  from searchFrom_first [where attempt = "quotedAttempt ''{write:''", OF quotedAttempt_command [OF this, of "''{write:''" "[]"]] Write
  show ?thesis by (simp add: classify_def commandText_def groupOrEmpty_def)
next
  case Draw
  with assms have "validToken S" by simp
  from searchFrom_first [where attempt = drawAttempt, OF drawAttempt_command [OF this, of "[]"]] Draw
  show ?thesis by (simp add: classify_def commandText_def groupOrEmpty_def)
next
  case Highlight
  with assms have "CHR 0x22 \<notin> set S" by (simp add: validString_def)
  from searchFrom_first [where attempt = "quotedAttempt ''{highlight:''", OF quotedAttempt_command [OF this, of "''{highlight:''" "[]"]] Highlight
  show ?thesis by (simp add: classify_def commandText_def groupOrEmpty_def)
next
  case Erase
  with assms have "CHR 0x22 \<notin> set S" by (simp add: validString_def)
  from searchFrom_first [where attempt = "quotedAttempt ''{erase:''", OF quotedAttempt_command [OF this, of "''{erase:''" "[]"]] Erase
  show ?thesis by (simp add: classify_def commandText_def groupOrEmpty_def)
next
  case Newpage
  with assms have "CHR 0x22 \<notin> set S" by (simp add: validString_def)
  from searchFrom_first [where attempt = "quotedAttempt ''{newpage:''", OF quotedAttempt_command [OF this, of "''{newpage:''" "[]"]] Newpage
  show ?thesis by (simp add: classify_def commandText_def groupOrEmpty_def)
qed

lemma valid_content: "validPiece (Command ty S) \<Longrightarrow> S \<noteq> []"
  by (cases ty) (simp_all add: validString_def validToken_def)

lemma toAction_command:
  assumes "validPiece (Command ty S)"
  shows "toAction ts (commandText ty S)
           = Some \<lparr>type = ty, content = S, timestamp = ts, executed = False\<rparr>"
  using valid_content [OF assms] by (simp add: toAction_def classify_command [OF assms])

lemma valid_no_close: "validPiece (Command ty S) \<Longrightarrow> CHR ''}'' \<notin> set S \<and> CHR 0x0A \<notin> set S"
  by (cases ty) (auto simp: validString_def validToken_def dest: lower_not_close)

lemma commandText_shape:
  assumes "validPiece (Command ty S)"
  shows "\<exists>b. commandText ty S = CHR ''{'' # b @ ''}'' \<and> b \<noteq> [] \<and> CHR ''}'' \<notin> set b"
  using valid_no_close [OF assms] by (cases ty) (simp_all add: commandText_def)

lemma actionText_commandText:
  "actionText \<lparr>type = ty, content = S, timestamp = ts, executed = e\<rparr> = commandText ty S"
  by (cases ty) (simp_all add: actionText_def commandText_def)

subsection \<open>One line\<close>

lemma digit_char:
  assumes "k < 10"
  shows "isDigit (char_of (48 + k)) \<and> digitVal (char_of (48 + k)) = k
     \<and> char_of (48 + k) \<noteq> CHR 0x0A"
proof -
  from assms have "(48 + k) mod 256 = 48 + k" by simp
  then have e: "of_char (char_of (48 + k)) = 48 + k" by (simp only: of_char_of)
  have "char_of (48 + k) \<noteq> CHR 0x0A"
  proof
    assume "char_of (48 + k) = CHR 0x0A"
    then have "of_char (char_of (48 + k)) = (of_char (CHR 0x0A) :: nat)" by (rule arg_cong)
    with e show False by simp
  qed
  with e assms show ?thesis by (simp add: isDigit_def digitVal_def)
qed

lemma timestampMatch_line:
  assumes "minutes l < 100" "seconds l < 100"
  shows "timestampMatch (lineText l) = Some (minutes l, seconds l)"
proof -
  from assms have "minutes l div 10 < 10" "minutes l mod 10 < 10"
    "seconds l div 10 < 10" "seconds l mod 10 < 10" by simp_all
  then show ?thesis using digit_char by (simp add: lineText_def twoDigits_def)
qed

lemma drop_line: "drop 7 (lineText l) = concat (map pieceText (pieces l))"
  by (simp add: lineText_def twoDigits_def)

lemma trim_line: "trim (lineText l) \<noteq> []"
proof -
  have "\<not> isWhiteSpace (CHR ''['')" by (simp add: isWhiteSpace_def)
  then show ?thesis
    by (auto simp: trim_def lineText_def dropWhile_eq_Nil_conv)
qed

lemma pieces_commands:
  "\<forall>p \<in> set ps. validPiece p \<Longrightarrow>
     matchCommands (concat (map pieceText ps)) = concat (map pieceCommand ps)"
proof (induction ps)
  case Nil
  show ?case by simp
next
  case (Cons p ps)
  show ?case
  proof (cases p)
    case (Narration w)
    with Cons show ?thesis by (simp add: matchCommands_narration)
  next
    case (Command ty S)
    with Cons.prems have "validPiece (Command ty S)" by simp
    from commandText_shape [OF this] obtain b where b: "commandText ty S = CHR ''{'' # b @ ''}''"
      "b \<noteq> []" "CHR ''}'' \<notin> set b" by blast
    from matchCommands_group [OF b(2,3), of "concat (map pieceText ps)"] Cons Command b(1)
    show ?thesis by simp
  qed
qed

lemma pieces_narration:
  "\<forall>p \<in> set ps. validPiece p \<Longrightarrow>
     stripCommands (concat (map pieceText ps)) = concat (map pieceNarration ps)"
proof (induction ps)
  case Nil
  show ?case by simp
next
  case (Cons p ps)
  show ?case
  proof (cases p)
    case (Narration w)
    with Cons show ?thesis by (simp add: stripCommands_narration)
  next
    case (Command ty S)
    with Cons.prems have "validPiece (Command ty S)" by simp
    from commandText_shape [OF this] obtain b where b: "commandText ty S = CHR ''{'' # b @ ''}''"
      "b \<noteq> []" "CHR ''}'' \<notin> set b" by blast
    from stripCommands_group [OF b(2,3), of "concat (map pieceText ps)"] Cons Command b(1)
    show ?thesis by simp
  qed
qed

lemma pieces_no_command:
  "concat (map pieceCommand ps) = [] \<Longrightarrow>
     concat (map pieceText ps) = concat (map pieceNarration ps)"
proof (induction ps)
  case Nil
  show ?case by simp
next
  case (Cons p ps)
  then show ?case by (cases p) simp_all
qed

lemma pieces_actions:
  "\<forall>p \<in> set ps. validPiece p \<Longrightarrow>
     List.map_filter (toAction ts) (concat (map pieceCommand ps)) = concat (map (pieceAction ts) ps)"
proof (induction ps)
  case Nil
  show ?case by (simp add: map_filter_simps)
next
  case (Cons p ps)
  show ?case
  proof (cases p)
    case (Narration w)
    with Cons show ?thesis by simp
  next
    case (Command ty S)
    with Cons.prems have "validPiece (Command ty S)" by simp
    from toAction_command [OF this, of ts] Cons Command show ?thesis
      by (simp add: map_filter_simps)
  qed
qed

lemma parseLine_line:
  assumes "validLine l"
  shows "parseLine (lineText l) (acts, sp, previous)
           = (acts @ lineActions l, sp @ lineSpeech previous l, lineTime l)"
proof -
  from assms have v: "\<forall>p \<in> set (pieces l). validPiece p"
    and t: "timestampMatch (lineText l) = Some (minutes l, seconds l)"
    by (simp_all add: validLine_def timestampMatch_line)
  let ?payload = "concat (map pieceText (pieces l))"
  have m: "matchCommands (trim ?payload) = lineCommands l"
    by (simp add: matchCommands_trim pieces_commands [OF v] lineCommands_def)
  have s: "trim (stripCommands (trim ?payload)) = narration l"
    by (simp add: stripCommands_trim pieces_narration [OF v] narration_def)
  have a: "List.map_filter (toAction (lineTime l)) (lineCommands l) = lineActions l"
    by (simp add: pieces_actions [OF v] lineCommands_def lineActions_def)
  have n: "lineCommands l = [] \<Longrightarrow> trim ?payload = narration l"
    by (simp add: pieces_no_command lineCommands_def narration_def)
  have a': "lineCommands l = [] \<Longrightarrow> lineActions l = []"
    using a by (simp add: map_filter_simps)
  have ts: "(int (minutes l) * 60 + int (seconds l)) * 1000 = lineTime l"
    by (simp only: lineTime_def)
  have "timestampedLine (minutes l) (seconds l) (lineText l) acts sp previous
          = (acts @ lineActions l, sp @ lineSpeech previous l, lineTime l)"
    unfolding timestampedLine_def Let_def ts drop_line m s a
    using n a' by (simp add: lineSpeech_def)
  with t trim_line [of l] show ?thesis by simp
qed

subsection \<open>Lines of a script\<close>

lemma split_lines_nonempty: "split_lines s \<noteq> []"
  by (induction s) (auto split: list.splits)

lemma split_lines_single: "CHR 0x0A \<notin> set l \<Longrightarrow> split_lines l = [l]"
  by (induction l) auto

lemma split_lines_append:
  "CHR 0x0A \<notin> set l \<Longrightarrow> split_lines (l @ CHR 0x0A # r) = l # split_lines r"
  by (induction l) auto

lemma split_join:
  "ls \<noteq> [] \<Longrightarrow> \<forall>l \<in> set ls. CHR 0x0A \<notin> set l \<Longrightarrow> split_lines (joinLines ls) = ls"
proof (induction ls rule: joinLines.induct)
  case 1
  then show ?case by simp
next
  case (2 l)
  then show ?case by (simp add: split_lines_single)
next
  case (3 l v va)
  then show ?case by (simp add: split_lines_append)
qed

lemma piece_no_newline: "validPiece p \<Longrightarrow> CHR 0x0A \<notin> set (pieceText p)"
proof (cases p)
  case (Narration w)
  assume "validPiece p"
  with Narration show ?thesis by simp
next
  case (Command ty S)
  assume "validPiece p"
  with Command valid_no_close [of ty S] show ?thesis
    by (cases ty) (simp_all add: commandText_def)
qed

lemma line_no_newline:
  assumes "validLine l"
  shows "CHR 0x0A \<notin> set (lineText l)"
proof -
  from assms have "minutes l < 100" "seconds l < 100" by (simp_all add: validLine_def)
  then have "minutes l div 10 < 10" "minutes l mod 10 < 10"
    "seconds l div 10 < 10" "seconds l mod 10 < 10" by simp_all
  then have d: "char_of (48 + minutes l div 10) \<noteq> CHR 0x0A" "char_of (48 + minutes l mod 10) \<noteq> CHR 0x0A"
    "char_of (48 + seconds l div 10) \<noteq> CHR 0x0A" "char_of (48 + seconds l mod 10) \<noteq> CHR 0x0A"
    using digit_char by blast+
  from assms have "\<forall>p \<in> set (pieces l). CHR 0x0A \<notin> set (pieceText p)"
    by (simp add: validLine_def piece_no_newline)
  with d show ?thesis by (auto simp: lineText_def twoDigits_def)
qed

lemma fold_lines:
  "\<forall>l \<in> set ls. validLine l \<Longrightarrow>
     \<exists>p. fold parseLine (map lineText ls) (acts, sp, previous)
           = (acts @ scriptActions ls, sp @ scriptSpeech previous ls, p)"
proof (induction ls arbitrary: acts sp previous)
  case Nil
  show ?case by (simp add: scriptActions_def)
next
  case (Cons l ls)
  then have "validLine l" and "\<forall>l \<in> set ls. validLine l" by simp_all
  from Cons.IH [OF this(2), of "acts @ lineActions l" "sp @ lineSpeech previous l" "lineTime l"]
    parseLine_line [OF this(1), of acts sp previous]
  show ?case by (simp add: scriptActions_def)
qed

lemma map_actionText_line:
  "map actionText (concat (map (pieceAction ts) ps)) = concat (map pieceCommand ps)"
proof (induction ps)
  case Nil
  show ?case by simp
next
  case (Cons p ps)
  then show ?case by (cases p) (simp_all add: actionText_commandText)
qed

lemma map_actionText_script: "map actionText (scriptActions ls) = scriptCommands ls"
  by (induction ls)
     (simp_all add: scriptActions_def scriptCommands_def lineActions_def lineCommands_def
        map_actionText_line)

text \<open>
  Claim C6, as the code has it. For every script whose lines are valid (two-digit fields;
  narration without opening brace and line feed; every quoted string non-empty and free
  of double quotes, closing braces and line feeds; every draw token a non-empty run of
  \<^verbatim>\<open>a-z\<close>), \<^verbatim>\<open>parseResponse\<close> returns exactly the actions of the commands, in order,
  each at the time of its line and not executed, and the speech of the lines; and
  rendering every parsed action with the template of its type gives back the commands of
  the script, character for character.
\<close>

theorem parser_round_trip:
  assumes "\<forall>l \<in> set ls. validLine l"
  shows "parseResponse (scriptText ls)
           = \<lparr>actions_r = scriptActions ls, speech_r = scriptSpeech 0 ls\<rparr>
       \<and> map actionText (actions_r (parseResponse (scriptText ls))) = scriptCommands ls"
proof -
  have p: "parseResponse (scriptText ls)
             = \<lparr>actions_r = scriptActions ls, speech_r = scriptSpeech 0 ls\<rparr>"
  proof (cases "ls = []")
    case True
    then show ?thesis
      by (simp add: parseResponse_def scriptText_def scriptActions_def trim_def)
  next
    case False
    with assms have "split_lines (joinLines (map lineText ls)) = map lineText ls"
      by (simp add: split_join line_no_newline)
    moreover from fold_lines [OF assms, of "[]" "[]" 0]
    obtain q where "fold parseLine (map lineText ls) ([], [], 0)
        = (scriptActions ls, scriptSpeech 0 ls, q)" by auto
    ultimately show ?thesis by (simp add: parseResponse_def scriptText_def)
  qed
  then show ?thesis by (simp add: map_actionText_script)
qed

text \<open>The scenario of the specification, parsed.\<close>

theorem parser_round_trip_witness:
  "list_all validLine scenario
   \<and> parseResponse (scriptText scenario)
       = \<lparr>actions_r = [\<lparr>type = Write, content = ''Hi'', timestamp = 0, executed = False\<rparr>,
                        \<lparr>type = Draw, content = ''circle'', timestamp = 5000, executed = False\<rparr>],
          speech_r = [\<lparr>text_s = ''Hello'', timestamp_s = 0, duration = Some 0\<rparr>]\<rparr>
   \<and> map actionText (actions_r (parseResponse (scriptText scenario)))
       = [''{write: '' @ [CHR 0x22] @ ''Hi'' @ [CHR 0x22] @ ''}'', ''{draw:circle}'']"
proof -
  have v: "\<forall>l \<in> set scenario. validLine l"
    by (simp add: scenario_def validLine_def validString_def validToken_def isLower_def)
  have a: "scriptActions scenario
      = [\<lparr>type = Write, content = ''Hi'', timestamp = 0, executed = False\<rparr>,
         \<lparr>type = Draw, content = ''circle'', timestamp = 5000, executed = False\<rparr>]"
    by code_simp
  have s: "scriptSpeech 0 scenario = [\<lparr>text_s = ''Hello'', timestamp_s = 0, duration = Some 0\<rparr>]"
    by code_simp
  have c: "scriptCommands scenario
      = [''{write: '' @ [CHR 0x22] @ ''Hi'' @ [CHR 0x22] @ ''}'', ''{draw:circle}'']"
    by code_simp
  from v have "list_all validLine scenario" by (simp add: list_all_iff)
  with parser_round_trip [OF v] a s c show ?thesis by (simp add: actionText_def)
qed

text \<open>
  The claim as it was stated fails for two commands of the documented form: the
  \<^verbatim>\<open>write\<close> of the empty string is dropped by the test
  \<^verbatim>\<open>actionContent || type === 'draw'\<close>, and a string with a closing brace ends the brace
  group early, so that no action is parsed and the rest of the command turns up as speech.
\<close>

theorem parser_round_trip_counterexample:
  "scriptActions emptyWrite = [\<lparr>type = Write, content = [], timestamp = 1000, executed = False\<rparr>]
   \<and> actions_r (parseResponse (scriptText emptyWrite)) = []
   \<and> scriptActions bracedWrite
       = [\<lparr>type = Write, content = ''x^{2}'', timestamp = 1000, executed = False\<rparr>]
   \<and> parseResponse (scriptText bracedWrite)
       = \<lparr>actions_r = [],
          speech_r = [\<lparr>text_s = [CHR 0x22, CHR ''}''], timestamp_s = 1000, duration = Some 1000\<rparr>]\<rparr>"
  by code_simp

subsection \<open>Groups that are not commands\<close>









lemma timestampMatch_not_blank: "timestampMatch line = Some ms \<Longrightarrow> trim line \<noteq> []"
proof -
  assume a: "timestampMatch line = Some ms"
  then obtain rest where l: "line = CHR ''['' # rest"
    by (cases line rule: timestampMatch.cases) (auto split: if_splits)
  have "\<not> isWhiteSpace CHR ''[''" by (simp add: isWhiteSpace_def)
  with l show ?thesis by (simp add: trim_def)
qed

lemma blank_no_timestamp: "trim line = [] \<Longrightarrow> timestampMatch line = None"
  using timestampMatch_not_blank [of line] by (cases "timestampMatch line") auto

lemma map_filter_append:
  "List.map_filter f (xs @ ys) = List.map_filter f xs @ List.map_filter f ys"
  by (simp add: map_filter_def)














subsection \<open>The older copy\<close>




text \<open>
  The older copy has no test in front of the push: every brace group behind a timestamp
  gives an action, a group with an unknown keyword one of type \<^verbatim>\<open>write\<close> with empty
  content.
\<close>

lemma parseLineOld_actions:
  "fst (parseLineOld line (acts, sp, previous))
     = acts @ map (toActionOld (lineTimestamp line)) (lineGroups line)"
  by (cases "timestampMatch line")
     (simp_all add: lineGroups_def lineTimestamp_def timestampedLineOld_def Let_def)

lemma fold_old_actions:
  "fst (fold parseLineOld lines st)
     = fst st @ concat (map (\<lambda>line. map (toActionOld (lineTimestamp line)) (lineGroups line)) lines)"
proof (induction lines arbitrary: st)
  case Nil
  show ?case by simp
next
  case (Cons line lines)
  obtain acts sp previous where st: "st = (acts, sp, previous)" by (cases st)
  from Cons.IH [of "parseLineOld line st"] parseLineOld_actions [of line acts sp previous] st
  show ?case by simp
qed

lemma older_copy_every_group:
  "actions_r (parseResponseOld r)
     = concat (map (\<lambda>line. map (toActionOld (lineTimestamp line)) (lineGroups line))
                (split_lines r))"
proof -
  from fold_old_actions [of "split_lines r" "([], [], 0)"]
  show ?thesis
    by (cases "fold parseLineOld (split_lines r) ([], [], 0)") (simp add: parseResponseOld_def)
qed

lemma older_copy_unknown_keyword:
  "\<not> knownKeyword t \<Longrightarrow>
     toActionOld ts t = \<lparr>type = Write, content = [], timestamp = ts, executed = False\<rparr>"
  by (simp add: knownKeyword_def toActionOld_def classify_def)

text \<open>
  The pattern for the name of a shape is searched anywhere in the group: a group that
  starts with \<^verbatim>\<open>{draw:\<close> can give a content that does not follow the keyword.
\<close>

lemma draw_group_example:
  "matchCommands ''{draw:X{draw:abc}'' = [''{draw:X{draw:abc}'']
   \<and> actions_r (parseResponse ''[00:01] {draw:X{draw:abc}'')
       = [\<lparr>type = Draw, content = ''abc'', timestamp = 1000, executed = False\<rparr>]"
  by code_simp

subsection \<open>Claim C7\<close>




section \<open>Properties of the scheduler\<close>

subsection \<open>The selected action\<close>

lemma find_SomeD: "find P xs = Some x \<Longrightarrow> x \<in> set xs \<and> P x"
  by (induction xs) (auto split: if_splits)

lemma set_sortedActions: "set (sortedActions as) = set (enumerate 0 as)"
  by (simp add: sortedActions_def)

lemma dueAction_SomeD:
  assumes "dueAction t as = Some (i, a)"
  shows "i < length as \<and> a = as ! i \<and> \<not> executed a \<and> timestamp a \<le> t"
proof -
  from find_SomeD [OF assms [unfolded dueAction_def]]
  have "(i, a) \<in> set (sortedActions as)" and "\<not> executed a \<and> timestamp a \<le> t"
    by auto
  then show ?thesis
    by (auto simp: set_sortedActions in_set_enumerate_eq)
qed

lemma dueAction_all_executed: "list_all executed as \<Longrightarrow> dueAction t as = None"
proof (cases "dueAction t as")
  case None
  then show ?thesis by simp
next
  case (Some p)
  assume all: "list_all executed as"
  obtain i a where "p = (i, a)" by (cases p)
  with Some dueAction_SomeD [of t as i a] have "i < length as" "\<not> executed (as ! i)" by auto
  with all show ?thesis by (simp add: list_all_length)
qed

lemma count_executed_update:
  "i < length as \<Longrightarrow> \<not> executed (as ! i) \<Longrightarrow>
   length (filter executed (as[i := (as ! i)\<lparr>executed := True\<rparr>])) = Suc (length (filter executed as))"
proof (induction as arbitrary: i)
  case Nil
  then show ?case by simp
next
  case (Cons x xs)
  then show ?case by (cases i) auto
qed

lemma filter_snd_enumerate:
  "map snd (filter (\<lambda>p. P (snd p)) (enumerate n xs)) = filter P xs"
  by (induction xs arbitrary: n) auto

lemma remaining_update:
  "i < length as \<Longrightarrow> \<not> executed (as ! i) \<Longrightarrow>
   filter (\<lambda>a. \<not> executed a) (as[i := (as ! i)\<lparr>executed := True\<rparr>])
     = map snd (filter (\<lambda>p. fst p \<noteq> i + n \<and> \<not> executed (snd p)) (enumerate n as))"
proof (induction as arbitrary: i n)
  case Nil
  then show ?case by simp
next
  case (Cons x xs)
  show ?case
  proof (cases i)
    case 0
    have "filter (\<lambda>p. fst p \<noteq> n \<and> \<not> executed (snd p)) (enumerate (Suc n) xs)
            = filter (\<lambda>p. \<not> executed (snd p)) (enumerate (Suc n) xs)"
      by (rule filter_cong) (auto simp: in_set_enumerate_eq)
    moreover have "map snd (filter (\<lambda>p. \<not> executed (snd p)) (enumerate (Suc n) xs))
            = filter (\<lambda>a. \<not> executed a) xs"
      by (rule filter_snd_enumerate)
    ultimately show ?thesis using 0 Cons.prems by simp
  next
    case (Suc j)
    with Cons.prems Cons.IH [of j "Suc n"] show ?thesis by simp
  qed
qed

lemma checkActions_select:
  assumes "selects now s = Some (i, a)"
  shows "checkActions now s =
           (let (es, s1) = claimAction (now - startTime s) (i, a) s;
                (es', s2) = finishCheck True s1
            in (es @ es', s2))"
  using assms by (simp add: selects_def checkActions_def split: if_splits)

lemma checkActions_none:
  assumes "selects now s = None"
  shows "actions (snd (checkActions now s)) = actions s
    \<and> actionBuffer (snd (checkActions now s)) = actionBuffer s
    \<and> dispatched (fst (checkActions now s)) = []"
  using assms by (auto simp: selects_def checkActions_def finishCheck_def split: if_splits)

subsection \<open>The spacing rule\<close>

text \<open>
  Claim C5. A poll tick that selects the due object \<open>i\<close> with fields \<open>a\<close>: when an action
  is in flight, or \<^verbatim>\<open>lastActionTime\<close> is positive and less than 800 ms have passed since,
  the rendered command goes to the end of the buffer and the executor is not called;
  otherwise the executor is called with it, the in-flight flag is set and
  \<^verbatim>\<open>lastActionTime\<close> becomes the elapsed time. In both branches the object was due and
  not executed, it is the only one that changes, its flag is set, and the number of
  executed actions grows by exactly one. A tick that selects nothing claims nothing.
\<close>

theorem spacing_rule:
  "(selects now s = Some (i, a) \<longrightarrow>
      (let (es, s') = checkActions now s; elapsed = now - startTime s in
         (if processingAction s \<or> (lastActionTime s > 0 \<and> elapsed - lastActionTime s < 800)
          then actionBuffer s' = actionBuffer s @ [actionText a] \<and> dispatched es = []
               \<and> processingAction s' = processingAction s \<and> lastActionTime s' = lastActionTime s
          else dispatched es = [actionText a] \<and> processingAction s' \<and> lastActionTime s' = elapsed
               \<and> actionBuffer s' = actionBuffer s)
         \<and> i < length (actions s) \<and> a = actions s ! i \<and> \<not> executed a \<and> timestamp a \<le> elapsed
         \<and> actions s' = (actions s)[i := a\<lparr>executed := True\<rparr>]
         \<and> length (filter executed (actions s')) = Suc (length (filter executed (actions s)))))
   \<and> (selects now s = None \<longrightarrow>
         actions (snd (checkActions now s)) = actions s
         \<and> actionBuffer (snd (checkActions now s)) = actionBuffer s
         \<and> dispatched (fst (checkActions now s)) = [])"
proof (intro conjI impI)
  assume sel: "selects now s = Some (i, a)"
  then have due: "dueAction (now - startTime s) (actions s) = Some (i, a)"
    and np: "\<not> processingAction s"
    by (simp_all add: selects_def split: if_splits)
  from dueAction_SomeD [OF due] have d: "i < length (actions s)" "a = actions s ! i"
    "\<not> executed (actions s ! i)" "timestamp (actions s ! i) \<le> now - startTime s"
    by auto
  from d have cnt: "length (filter executed ((actions s)[i := a\<lparr>executed := True\<rparr>]))
      = Suc (length (filter executed (actions s)))"
    by (auto simp: count_executed_update)
  show "let (es, s') = checkActions now s; elapsed = now - startTime s in
         (if processingAction s \<or> (lastActionTime s > 0 \<and> elapsed - lastActionTime s < 800)
          then actionBuffer s' = actionBuffer s @ [actionText a] \<and> dispatched es = []
               \<and> processingAction s' = processingAction s \<and> lastActionTime s' = lastActionTime s
          else dispatched es = [actionText a] \<and> processingAction s' \<and> lastActionTime s' = elapsed
               \<and> actionBuffer s' = actionBuffer s)
         \<and> i < length (actions s) \<and> a = actions s ! i \<and> \<not> executed a \<and> timestamp a \<le> elapsed
         \<and> actions s' = (actions s)[i := a\<lparr>executed := True\<rparr>]
         \<and> length (filter executed (actions s')) = Suc (length (filter executed (actions s)))"
    using d cnt np
    by (simp add: checkActions_select [OF sel] claimAction_def finishCheck_def
        allActionsProcessed_def minActionSpacing_def Let_def split: prod.splits)
next
  assume "selects now s = None"
  then show "actions (snd (checkActions now s)) = actions s"
    and "actionBuffer (snd (checkActions now s)) = actionBuffer s"
    and "dispatched (fst (checkActions now s)) = []"
    using checkActions_none by auto
qed

text \<open>
  The rule at work on \<open>lesson\<close>: the tick at 1000 ms triggers the first command; after a
  late first tick (1250 ms) and a completion at 1300 ms, the tick at 2000 ms buffers the
  third; the tick at 500 ms selects nothing.
\<close>

theorem spacing_rule_witness:
  "selects 1000 playing = Some (0, actions playing ! 0)
   \<and> dispatched (fst (checkActions 1000 playing)) = [actionText (actions playing ! 0)]
   \<and> processingAction (snd (checkActions 1000 playing))
   \<and> lastActionTime (snd (checkActions 1000 playing)) = 1000
   \<and> selects 2000 (final playing [Tick 1250, Notify 1300]) = Some (2, actions playing ! 2)
   \<and> actionBuffer (snd (checkActions 2000 (final playing [Tick 1250, Notify 1300])))
       = actionBuffer (final playing [Tick 1250, Notify 1300]) @ [actionText (actions playing ! 2)]
   \<and> dispatched (fst (checkActions 2000 (final playing [Tick 1250, Notify 1300]))) = []
   \<and> selects 500 playing = None
   \<and> actions (snd (checkActions 500 playing)) = actions playing"
proof -
  let ?s = "final playing [Tick 1250, Notify 1300]"
  have h1: "selects 1000 playing = Some (0, actions playing ! 0)" by code_simp
  have c1: "\<not> processingAction playing" "lastActionTime playing = 0" "startTime playing = 0"
    by code_simp+
  have h2: "selects 2000 ?s = Some (2, actions playing ! 2)" by code_simp
  have c2: "\<not> processingAction ?s" "lastActionTime ?s = 1250" "startTime ?s = 0"
    by code_simp+
  have h3: "selects 500 playing = None" by code_simp
  from spacing_rule [of 1000 playing 0 "actions playing ! 0"] h1 c1
  have r1: "dispatched (fst (checkActions 1000 playing)) = [actionText (actions playing ! 0)]
   \<and> processingAction (snd (checkActions 1000 playing))
   \<and> lastActionTime (snd (checkActions 1000 playing)) = 1000"
    by (simp add: case_prod_beta Let_def)
  from spacing_rule [of 2000 ?s 2 "actions playing ! 2"] h2 c2
  have r2: "actionBuffer (snd (checkActions 2000 ?s)) = actionBuffer ?s @ [actionText (actions playing ! 2)]
   \<and> dispatched (fst (checkActions 2000 ?s)) = []"
    by (simp add: case_prod_beta Let_def)
  from spacing_rule [of 500 playing 0 "actions playing ! 0"] h3
  have r3: "actions (snd (checkActions 500 playing)) = actions playing" by simp
  from h1 h2 h3 r1 r2 r3 show ?thesis by simp
qed

subsection \<open>Buffered actions count as completed\<close>

text \<open>
  Claim C10. When a poll tick selects object \<open>i\<close> and the spacing rule sends its command
  to the buffer, the executor is not called, yet the object is marked executed:
  \<^verbatim>\<open>getRemainingActions\<close> returns the objects that were not executed before, without
  \<open>i\<close> (one fewer), and \<^verbatim>\<open>getProgress\<close> reports one more completed action and one fewer
  remaining, at any clock reading \<open>t\<close>.
\<close>

theorem buffered_counts_as_completed:
  assumes "selects now s = Some (i, a)"
    and "lastActionTime s > 0"
    and "now - startTime s - lastActionTime s < 800"
  shows "let (es, s') = checkActions now s in
           dispatched es = []
         \<and> actionBuffer s' = actionBuffer s @ [actionText a]
         \<and> executed (actions s' ! i)
         \<and> getRemainingActions s' =
              map snd (filter (\<lambda>p. fst p \<noteq> i \<and> \<not> executed (snd p)) (enumerate 0 (actions s)))
         \<and> length (getRemainingActions s') + 1 = length (getRemainingActions s)
         \<and> totalActions (getProgress t s') = totalActions (getProgress t s)
         \<and> completedActions (getProgress t s') = completedActions (getProgress t s) + 1
         \<and> remainingActions (getProgress t s') + 1 = remainingActions (getProgress t s)"
proof -
  from assms(1) have due: "dueAction (now - startTime s) (actions s) = Some (i, a)"
    by (simp add: selects_def split: if_splits)
  from dueAction_SomeD [OF due] have d: "i < length (actions s)" "a = actions s ! i"
    "\<not> executed (actions s ! i)" "timestamp (actions s ! i) \<le> now - startTime s"
    by auto
  from d have cnt:
    "length (filter executed ((actions s)[i := (actions s ! i)\<lparr>executed := True\<rparr>]))
      = Suc (length (filter executed (actions s)))"
    by (auto simp: count_executed_update)
  from d have rem:
    "filter (\<lambda>a. \<not> executed a) ((actions s)[i := (actions s ! i)\<lparr>executed := True\<rparr>])
     = map snd (filter (\<lambda>p. fst p \<noteq> i \<and> \<not> executed (snd p)) (enumerate 0 (actions s)))"
    using remaining_update [of i "actions s" 0] by auto
  have le: "length (filter executed (actions s)) < length (actions s)"
    using d(1,3) length_filter_less [of "actions s ! i" "actions s" executed] by simp
  have len: "length (filter (\<lambda>a. \<not> executed a) xs) + length (filter executed xs) = length xs"
    for xs :: "Action list"
    using sum_length_filter_compl [of executed xs] by simp
  have r1:
    "length (filter (\<lambda>a. \<not> executed a) ((actions s)[i := (actions s ! i)\<lparr>executed := True\<rparr>])) + 1
       = length (filter (\<lambda>a. \<not> executed a) (actions s))"
    using len [of "(actions s)[i := (actions s ! i)\<lparr>executed := True\<rparr>]"] len [of "actions s"] cnt
    by simp
  show ?thesis
    using d cnt le r1 rem assms(2,3)
    by (simp add: checkActions_select [OF assms(1)] claimAction_def finishCheck_def
        allActionsProcessed_def minActionSpacing_def getRemainingActions_def getProgress_def
        Let_def split: prod.splits)
qed

theorem buffered_counts_as_completed_witness:
  "selects 2000 (final playing [Tick 1250, Notify 1300]) = Some (2, actions playing ! 2)
   \<and> lastActionTime (final playing [Tick 1250, Notify 1300]) > 0
   \<and> dispatched (fst (checkActions 2000 (final playing [Tick 1250, Notify 1300]))) = []
   \<and> executed (actions (snd (checkActions 2000 (final playing [Tick 1250, Notify 1300]))) ! 2)
   \<and> completedActions (getProgress 2000 (snd (checkActions 2000 (final playing [Tick 1250, Notify 1300]))))
        = completedActions (getProgress 2000 (final playing [Tick 1250, Notify 1300])) + 1
   \<and> length (getRemainingActions (snd (checkActions 2000 (final playing [Tick 1250, Notify 1300])))) + 1
        = length (getRemainingActions (final playing [Tick 1250, Notify 1300]))"
proof -
  let ?s = "final playing [Tick 1250, Notify 1300]"
  have h: "selects 2000 ?s = Some (2, actions playing ! 2)" by code_simp
  have c: "lastActionTime ?s > 0" "2000 - startTime ?s - lastActionTime ?s < 800"
    by code_simp+
  from buffered_counts_as_completed [OF h c, of 2000]
  have "dispatched (fst (checkActions 2000 ?s)) = []
      \<and> executed (actions (snd (checkActions 2000 ?s)) ! 2)
      \<and> length (getRemainingActions (snd (checkActions 2000 ?s))) + 1 = length (getRemainingActions ?s)
      \<and> completedActions (getProgress 2000 (snd (checkActions 2000 ?s)))
           = completedActions (getProgress 2000 ?s) + 1"
    unfolding Let_def case_prod_beta by blast
  with h c(1) show ?thesis by blast
qed

subsection \<open>Single flight\<close>

lemma flightOk_checkActions:
  "flightOk (processingAction s) (fst (checkActions now s)) =
     (True, processingAction (snd (checkActions now s)))"
  by (auto simp: checkActions_def claimAction_def finishCheck_def Let_def
      split: option.splits prod.splits)

lemma flightOk_notify:
  "flightOk False (fst (notifyActionComplete now s)) =
     (True, processingAction (snd (notifyActionComplete now s)))"
  using flightOk_checkActions [of "s\<lparr>processingAction := False\<rparr>" now]
  by (auto simp: notifyActionComplete_def Let_def split: list.splits)

lemma singleFlight_run: "singleFlight (processingAction s) (run s evs)"
proof (induction evs arbitrary: s)
  case Nil
  show ?case by simp
next
  case (Cons e evs)
  show ?case
  proof (cases e)
    case (Tick now)
    then show ?thesis
      using Cons.IH [of "snd (checkActions now s)"] by (simp add: flightOk_checkActions)
  next
    case (Notify now)
    then show ?thesis
      using Cons.IH [of "snd (notifyActionComplete now s)"] by (simp add: flightOk_notify)
  qed
qed

lemma dispatch_sets_flag:
  "dispatched (fst (step e s)) \<noteq> [] \<Longrightarrow> processingAction (snd (step e s))"
  by (cases e)
     (auto simp: checkActions_def notifyActionComplete_def claimAction_def finishCheck_def Let_def
           split: option.splits prod.splits list.splits if_splits)

lemma in_flight_tick:
  "processingAction s \<Longrightarrow>
     dispatched (fst (checkActions now s)) = [] \<and> snd (checkActions now s) = s"
  by (simp add: checkActions_def)

text \<open>
  Claim C1. From any state of the synchronizer and for any schedule of poll ticks and
  completion notifications, the executor is never called while an earlier call still
  waits for its \<^verbatim>\<open>notifyActionComplete\<close>; the flag \<^verbatim>\<open>processingAction\<close> tells at the
  start whether one is waiting. Every event that calls the executor, a tick or the
  hand-off from the buffer in \<^verbatim>\<open>notifyActionComplete\<close>, leaves the flag set, and a tick
  that finds the flag set calls nothing and changes nothing.
\<close>

theorem single_flight:
  "singleFlight (processingAction s) (run s evs)
   \<and> (dispatched (fst (step e s)) \<noteq> [] \<longrightarrow> processingAction (snd (step e s)))
   \<and> (processingAction s \<longrightarrow>
        dispatched (fst (step (Tick now) s)) = [] \<and> snd (step (Tick now) s) = s)"
  using singleFlight_run dispatch_sets_flag in_flight_tick by simp

theorem single_flight_witness:
  "singleFlight False
     (run playing [Tick 1000, Tick 1500, Notify 1600, Tick 2000, Notify 2500, Notify 2600])
   \<and> dispatched (fst (step (Tick 1000) playing)) \<noteq> []
   \<and> processingAction (snd (step (Tick 1000) playing))
   \<and> processingAction (final playing [Tick 1000])
   \<and> dispatched (fst (step (Tick 1500) (final playing [Tick 1000]))) = []"
proof -
  have a: "processingAction playing = False" by code_simp
  have b: "dispatched (fst (step (Tick 1000) playing)) \<noteq> []" by code_simp
  have c: "processingAction (final playing [Tick 1000])" by code_simp
  from single_flight [of playing
      "[Tick 1000, Tick 1500, Notify 1600, Tick 2000, Notify 2500, Notify 2600]" "Tick 1000" 0]
    single_flight [of "final playing [Tick 1000]" "[]" "Tick 0" 1500] a b c
  show ?thesis by simp
qed

subsection \<open>Firing order\<close>

text \<open>
  Claim C2 asks that the commands reach the executor in non-decreasing order of their
  timestamps. \<^verbatim>\<open>checkActions\<close> triggers a due action directly whenever nothing is in
  flight and the spacing has passed, also while older commands wait in the buffer, and the
  buffer is drained only by \<^verbatim>\<open>notifyActionComplete\<close>. On \<open>lesson\<close>, with the timers
  coming due as \<^verbatim>\<open>checkActions\<close> sets them (every 250 ms, 500 ms after a tick that
  claimed an action) and the two completions arriving at 1100 ms and 2300 ms, the executor
  receives the first command, then the third (due at 2000 ms), then the second (due at
  1000 ms).
\<close>

theorem firing_order_violated:
  "map timestamp (actions playing) = [1000, 1000, 2000]
   \<and> executorCalls (run playing [Tick 250, Tick 500, Tick 750, Tick 1000, Notify 1100, Tick 1500,
        Tick 1600, Tick 1750, Tick 1850, Tick 2000, Tick 2100, Notify 2300])
     = [actionText (actions playing ! 0), actionText (actions playing ! 2),
        actionText (actions playing ! 1)]"
  by code_simp

subsection \<open>Completion\<close>

lemma onComplete_checkActions:
  "OnComplete \<in> set (fst (checkActions now s)) \<longleftrightarrow>
     isPlaying s \<and> \<not> processingAction s \<and> list_all executed (actions s)
     \<and> actionBuffer s = [] \<and> actions s \<noteq> []"
proof (cases "isPlaying s \<and> \<not> processingAction s")
  case False
  then show ?thesis by (auto simp: checkActions_def)
next
  case True
  show ?thesis
  proof (cases "dueAction (now - startTime s) (actions s)")
    case None
    with True show ?thesis
      by (auto simp: checkActions_def finishCheck_def allActionsProcessed_def)
  next
    case (Some p)
    then have "\<not> list_all executed (actions s)"
      using dueAction_all_executed [of "actions s" "now - startTime s"] by auto
    with True Some show ?thesis
      by (auto simp: checkActions_def finishCheck_def claimAction_def allActionsProcessed_def
          Let_def split: prod.splits)
  qed
qed

lemma onComplete_step:
  "OnComplete \<in> set (fst (step e s)) \<longleftrightarrow>
     isPlaying s \<and> (case e of Tick t \<Rightarrow> \<not> processingAction s | Notify t \<Rightarrow> True)
     \<and> list_all executed (actions s) \<and> actionBuffer s = [] \<and> actions s \<noteq> []"
proof (cases e)
  case (Tick t)
  then show ?thesis by (simp add: onComplete_checkActions)
next
  case (Notify t)
  then show ?thesis
    using onComplete_checkActions [of t "s\<lparr>processingAction := False\<rparr>"]
    by (auto simp: notifyActionComplete_def Let_def split: list.splits)
qed

lemma onComplete_stops:
  "OnComplete \<in> set (fst (step e s)) \<Longrightarrow> \<not> isPlaying (snd (step e s))"
  by (cases e)
     (auto simp: checkActions_def notifyActionComplete_def claimAction_def finishCheck_def Let_def
           split: option.splits prod.splits list.splits if_splits)

lemma onComplete_count_step:
  "length (filter (\<lambda>x. x = OnComplete) (fst (step e s))) \<le> 1"
  by (cases e)
     (auto simp: checkActions_def notifyActionComplete_def claimAction_def finishCheck_def Let_def
           split: option.splits prod.splits list.splits if_splits)

lemma stopped_step:
  "\<not> isPlaying s \<Longrightarrow> \<not> isPlaying (snd (step e s)) \<and> OnComplete \<notin> set (fst (step e s))"
  by (cases e)
     (auto simp: checkActions_def notifyActionComplete_def Let_def split: list.splits)

lemma completions_Cons:
  "completions ((e, es) # tr) = length (filter (\<lambda>x. x = OnComplete) es) + completions tr"
  by (simp add: completions_def)

lemma stopped_run: "\<not> isPlaying s \<Longrightarrow> completions (run s evs) = 0"
proof (induction evs arbitrary: s)
  case Nil
  show ?case by (simp add: completions_def)
next
  case (Cons e evs)
  from stopped_step [OF Cons.prems, of e]
  have "\<not> isPlaying (snd (step e s))" and "filter (\<lambda>x. x = OnComplete) (fst (step e s)) = []"
    by (auto simp: filter_empty_conv)
  with Cons.IH [of "snd (step e s)"] show ?case by (simp add: completions_Cons)
qed

lemma completions_le_1: "completions (run s evs) \<le> 1"
proof (induction evs arbitrary: s)
  case Nil
  show ?case by (simp add: completions_def)
next
  case (Cons e evs)
  show ?case
  proof (cases "OnComplete \<in> set (fst (step e s))")
    case True
    then have "completions (run (snd (step e s)) evs) = 0"
      using onComplete_stops stopped_run by blast
    with onComplete_count_step [of e s] show ?thesis by (simp add: completions_Cons)
  next
    case False
    then have "filter (\<lambda>x. x = OnComplete) (fst (step e s)) = []"
      by (auto simp: filter_empty_conv)
    with Cons.IH [of "snd (step e s)"] show ?thesis by (simp add: completions_Cons)
  qed
qed

lemma empty_step:
  "actions s = [] \<Longrightarrow> actions (snd (step e s)) = [] \<and> OnComplete \<notin> set (fst (step e s))"
  by (simp add: onComplete_step)
     (cases e; auto simp: checkActions_def notifyActionComplete_def finishCheck_def dueAction_def
        sortedActions_def Let_def split: list.splits)

lemma empty_run: "actions s = [] \<Longrightarrow> completions (run s evs) = 0"
proof (induction evs arbitrary: s)
  case Nil
  show ?case by (simp add: completions_def)
next
  case (Cons e evs)
  from empty_step [OF Cons.prems, of e]
  have "actions (snd (step e s)) = []" and "filter (\<lambda>x. x = OnComplete) (fst (step e s)) = []"
    by (auto simp: filter_empty_conv)
  with Cons.IH [of "snd (step e s)"] show ?case by (simp add: completions_Cons)
qed

text \<open>
  Polls never take a command out of the buffer: as long as only timers come due, what is
  buffered stays buffered and the timeline does not complete. On \<open>lesson\<close>, after a late
  first tick and one completion, the second and the third command are both in the buffer
  with nothing in flight, so the executor, which has finished its only command, has no
  reason to call back.
\<close>

lemma tick_keeps_buffer:
  "actionBuffer s \<noteq> [] \<Longrightarrow>
     prefix (actionBuffer s) (actionBuffer (snd (checkActions now s)))
     \<and> actionBuffer (snd (checkActions now s)) \<noteq> []
     \<and> OnComplete \<notin> set (fst (checkActions now s))"
  by (auto simp: checkActions_def claimAction_def finishCheck_def allActionsProcessed_def Let_def
      split: option.splits prod.splits)

lemma buffer_waits_for_notification:
  "actionBuffer s \<noteq> [] \<Longrightarrow> \<forall>e \<in> set evs. isTick e \<Longrightarrow>
     prefix (actionBuffer s) (actionBuffer (final s evs)) \<and> completions (run s evs) = 0"
proof (induction evs arbitrary: s)
  case Nil
  show ?case by (simp add: completions_def)
next
  case (Cons e evs)
  then obtain now where e: "e = Tick now" by (cases e) auto
  from tick_keeps_buffer [OF Cons.prems(1), of now]
  have 1: "prefix (actionBuffer s) (actionBuffer (snd (checkActions now s)))"
    and 2: "actionBuffer (snd (checkActions now s)) \<noteq> []"
    and 3: "filter (\<lambda>x. x = OnComplete) (fst (checkActions now s)) = []"
    by (auto simp: filter_empty_conv)
  from Cons.IH [OF 2] Cons.prems(2) 1 3 e show ?case
    by (auto simp: completions_Cons intro: prefix_order.trans)
qed

lemma lesson_stalls:
  "executorCalls (run playing [Tick 1250, Notify 1300, Tick 2000]) = [actionText (actions playing ! 0)]
   \<and> list_all executed (actions (final playing [Tick 1250, Notify 1300, Tick 2000]))
   \<and> \<not> processingAction (final playing [Tick 1250, Notify 1300, Tick 2000])
   \<and> actionBuffer (final playing [Tick 1250, Notify 1300, Tick 2000])
       = [actionText (actions playing ! 1), actionText (actions playing ! 2)]"
  by code_simp

text \<open>
  Claim C3, as the code has it. Over any schedule of ticks and notifications that follows
  a \<^verbatim>\<open>start()\<close>, \<^verbatim>\<open>onComplete\<close> is called at most once, and never when the timeline has
  no action. An event calls it exactly when the synchronizer is playing, the timeline is
  not empty, every action is marked executed, the buffer is empty and nothing is in flight
  (a notification ends the flight itself; a tick must find the flag cleared). The call
  stops the playback, after which no event calls it again.
\<close>

theorem completion_at_most_once:
  "completions (run s evs) \<le> 1
   \<and> (actions s = [] \<longrightarrow> completions (run s evs) = 0)
   \<and> (OnComplete \<in> set (fst (step e s)) \<longleftrightarrow>
        isPlaying s \<and> (case e of Tick t \<Rightarrow> \<not> processingAction s | Notify t \<Rightarrow> True)
        \<and> list_all executed (actions s) \<and> actionBuffer s = [] \<and> actions s \<noteq> [])
   \<and> (OnComplete \<in> set (fst (step e s)) \<longrightarrow>
        \<not> isPlaying (snd (step e s)) \<and> completions (run (snd (step e s)) evs) = 0)"
  using completions_le_1 empty_run onComplete_step [of e s] onComplete_stops stopped_run
  by blast

theorem completion_at_most_once_witness:
  "completions (run playing
      [Tick 1000, Notify 1100, Notify 1200, Tick 2000, Notify 2300, Notify 2600, Tick 2800]) = 1
   \<and> actions idle = [] \<and> completions (run idle [Tick 250, Tick 500]) = 0
   \<and> OnComplete \<in> set (fst (step (Notify 2600)
        (final playing [Tick 1000, Notify 1100, Notify 1200, Tick 2000, Notify 2300])))
   \<and> \<not> isPlaying (snd (step (Notify 2600)
        (final playing [Tick 1000, Notify 1100, Notify 1200, Tick 2000, Notify 2300])))"
proof -
  let ?s = "final playing [Tick 1000, Notify 1100, Notify 1200, Tick 2000, Notify 2300]"
  let ?evs = "[Tick 1000, Notify 1100, Notify 1200, Tick 2000, Notify 2300, Notify 2600, Tick 2800]"
  have a: "actions idle = []" by code_simp
  have b: "isPlaying ?s \<and> list_all executed (actions ?s) \<and> actionBuffer ?s = [] \<and> actions ?s \<noteq> []"
    by code_simp
  have c: "completions (run playing ?evs) \<noteq> 0"
    by code_simp
  from completion_at_most_once [of playing ?evs "Tick 0"]
    completion_at_most_once [of idle "[Tick 250, Tick 500]" "Tick 0"]
    completion_at_most_once [of ?s "[]" "Notify 2600"] a b c
  show ?thesis by simp
qed

text \<open>
  The claim as it was stated fails on a script without commands: the timeline is loaded
  and started, every action is (vacuously) executed, the buffer is empty and nothing is in
  flight, and the polls go on without ever calling \<^verbatim>\<open>onComplete\<close>.
\<close>

theorem completion_counterexample:
  "actions idle = [] \<and> isPlaying idle \<and> allActionsProcessed idle
   \<and> completions
        ((Tick 0, fst (start 0 0 (loadResponse ''[00:01] Hello'' newSynchronizer)))
           # run idle [Tick 250, Tick 500, Tick 750, Tick 1000, Notify 1100, Tick 1250]) = 0
   \<and> isPlaying (final idle [Tick 250, Tick 500, Tick 750, Tick 1000, Notify 1100, Tick 1250])"
  by code_simp

subsection \<open>A notification with nothing in flight\<close>

text \<open>
  Claim C4, as the code has it. \<^verbatim>\<open>notifyActionComplete\<close> called while
  \<^verbatim>\<open>processingAction\<close> is false always returns. It changes nothing when the buffer is
  empty and the synchronizer is not playing. With an empty buffer it is one
  \<^verbatim>\<open>checkActions\<close> at that instant; with a command \<open>b\<close> at the head of the buffer it
  hands \<open>b\<close> to the executor and sets the in-flight flag.
\<close>

theorem duplicate_notification:
  assumes "\<not> processingAction s"
  shows "(actionBuffer s = [] \<and> \<not> isPlaying s \<longrightarrow> notifyActionComplete now s = ([], s))
       \<and> (actionBuffer s = [] \<longrightarrow> notifyActionComplete now s = checkActions now s)
       \<and> (actionBuffer s = b # bs \<and> b \<noteq> [] \<longrightarrow>
            notifyActionComplete now s =
              ([ActionCallback b], s\<lparr>actionBuffer := bs, processingAction := True\<rparr>))"
proof -
  from assms have "s\<lparr>processingAction := False\<rparr> = s" by simp
  then show ?thesis
    by (auto simp: notifyActionComplete_def checkActions_def Let_def)
qed

theorem duplicate_notification_witness:
  "\<not> processingAction (final playing [Tick 1000, Notify 1100])
   \<and> notifyActionComplete 1200 (final playing [Tick 1000, Notify 1100])
       = ([ActionCallback (actionText (actions playing ! 1))],
          (final playing [Tick 1000, Notify 1100])\<lparr>actionBuffer := [], processingAction := True\<rparr>)
   \<and> \<not> processingAction (stop playing)
   \<and> notifyActionComplete 1200 (stop playing) = ([], stop playing)"
proof -
  let ?s = "final playing [Tick 1000, Notify 1100]"
  have h: "\<not> processingAction ?s" by code_simp
  have b: "actionBuffer ?s = [actionText (actions playing ! 1)]"
    "actionText (actions playing ! 1) \<noteq> []"
    by code_simp+
  have h': "\<not> processingAction (stop playing)" "actionBuffer (stop playing) = []"
    "\<not> isPlaying (stop playing)" by code_simp+
  from duplicate_notification [OF h, where b = "actionText (actions playing ! 1)" and bs = "[]"
      and now = 1200]
    duplicate_notification [OF h'(1), where now = 1200] h b h'
  show ?thesis by simp
qed

text \<open>
  The claim as it was stated fails after the first command of \<open>lesson\<close> completed at
  1100 ms: nothing is in flight, the second command waits in the buffer, and one more
  notification hands it to the executor and changes the buffer and the flag.
\<close>

theorem duplicate_notification_counterexample:
  "\<not> processingAction (final playing [Tick 1000, Notify 1100])
   \<and> fst (notifyActionComplete 1200 (final playing [Tick 1000, Notify 1100]))
       = [ActionCallback (''{write: '' @ [CHR 0x22] @ ''B'' @ [CHR 0x22] @ ''}'')]
   \<and> processingAction (snd (notifyActionComplete 1200 (final playing [Tick 1000, Notify 1100])))
   \<and> actionBuffer (final playing [Tick 1000, Notify 1100]) \<noteq>
       actionBuffer (snd (notifyActionComplete 1200 (final playing [Tick 1000, Notify 1100])))"
  by code_simp

section \<open>Properties of the voice activity detector\<close>



lemma interrupts_append [simp]: "interrupts (xs @ ys) = interrupts xs + interrupts ys"
  by (simp add: interrupts_def)

lemma endsOfSpeech_append [simp]: "endsOfSpeech (xs @ ys) = endsOfSpeech xs + endsOfSpeech ys"
  by (simp add: endsOfSpeech_def)














subsection \<open>The captured state\<close>

text \<open>
  \<^verbatim>\<open>setIsUserSpeaking(true)\<close> does not change the \<^verbatim>\<open>isUserSpeaking\<close> the closure reads. So
  a closure that captured false sends the interrupt again at every further processed
  sample above the threshold with the guard clear: a run of \<open>n\<close> such samples sends
  \<open>n + 1 - minSpeakingFrames\<close> interrupts.
\<close>

lemma interrupt_repeats_from:
  assumes "\<not> isUserSpeaking cl"
    and "\<forall>f \<in> set fs. loud f \<and> \<not> silenceDetectionDisabled f \<and> \<not> guarded cl f \<and> wsOpen f"
  shows "interrupts (signals cl d (samples fs))
       = (speakingFrames d + length fs + 1 - minSpeakingFrames)
         - (speakingFrames d + 1 - minSpeakingFrames)"
  using assms(2)
proof (induction fs arbitrary: d)
  case Nil
  show ?case by (simp add: samples_def interrupts_def)
next
  case (Cons f fs)
  let ?d = "snd (detectSilence cl f d)"
  from Cons.prems assms(1) have c: "speakingFrames ?d = speakingFrames d + 1"
    and i: "interrupts (fst (detectSilence cl f d))
          = (if minSpeakingFrames \<le> speakingFrames d + 1 then 1 else 0)"
    by (auto simp: detectSilence_def speechBranch_def loud_def guarded_def interrupts_def Let_def)
  from Cons.prems have "\<forall>f \<in> set fs. loud f \<and> \<not> silenceDetectionDisabled f \<and> \<not> guarded cl f \<and> wsOpen f"
    by simp
  from Cons.IH [OF this, of ?d] c i show ?case
    by (simp add: samples_def)
qed

lemma interrupt_repeats:
  assumes "\<not> isUserSpeaking cl" "speakingFrames d = 0"
    and "\<forall>f \<in> set fs. loud f \<and> \<not> silenceDetectionDisabled f \<and> \<not> guarded cl f \<and> wsOpen f"
  shows "interrupts (signals cl d (samples fs)) = length fs + 1 - minSpeakingFrames"
  using interrupt_repeats_from [OF assms(1) assms(3), of d] assms(2)
  by (simp add: minSpeakingFrames_def)

lemma interrupt_repeats_example:
  "interrupts (signals atMount newDetector (samples (replicate 15 userTalks))) = 1
   \<and> interrupts (signals atMount newDetector (samples (replicate 16 userTalks))) = 2
   \<and> interrupts (signals atMount newDetector (samples (replicate 17 userTalks))) = 3"
  by code_simp

text \<open>
  A closure that captured \<^verbatim>\<open>isUserSpeaking\<close> as false never takes the branch that ends the
  speech: it arms no timer and sends no end-of-speech. A closure that captured true never
  takes the branch that starts it.
\<close>

lemma never_ends_step:
  assumes "\<not> isUserSpeaking cl" "pendingTimeouts d = []"
  shows "endsOfSpeech (fst (react cl i d)) = 0
       \<and> SetIsUserSpeaking False \<notin> set (fst (react cl i d))
       \<and> pendingTimeouts (snd (react cl i d)) = []"
  using assms
  by (cases i)
     (auto simp: detectSilence_def speechBranch_def silenceBranch_def timeoutElapsed_def
        endsOfSpeech_def Let_def)

lemma never_ends:
  assumes "\<not> isUserSpeaking cl"
  shows "pendingTimeouts d = [] \<Longrightarrow>
     endsOfSpeech (signals cl d inputs) = 0
     \<and> SetIsUserSpeaking False \<notin> set (signals cl d inputs)
     \<and> pendingTimeouts (after cl d inputs) = []"
proof (induction inputs arbitrary: d)
  case Nil
  then show ?case by (simp add: endsOfSpeech_def)
next
  case (Cons i inputs)
  from never_ends_step [OF assms Cons.prems, of i]
  have s: "endsOfSpeech (fst (react cl i d)) = 0"
    "SetIsUserSpeaking False \<notin> set (fst (react cl i d))"
    "pendingTimeouts (snd (react cl i d)) = []"
    by simp_all
  from Cons.IH [OF s(3)] s(1,2) show ?case by simp
qed

lemma never_starts_step:
  assumes "isUserSpeaking cl"
  shows "interrupts (fst (react cl i d)) = 0 \<and> SetIsUserSpeaking True \<notin> set (fst (react cl i d))"
  using assms
  by (cases i)
     (auto simp: detectSilence_def speechBranch_def silenceBranch_def timeoutElapsed_def
        interrupts_def Let_def)

lemma never_starts:
  assumes "isUserSpeaking cl"
  shows "interrupts (signals cl d inputs) = 0 \<and> SetIsUserSpeaking True \<notin> set (signals cl d inputs)"
proof (induction inputs arbitrary: d)
  case Nil
  show ?case by (simp add: interrupts_def)
next
  case (Cons i inputs)
  from never_starts_step [OF assms, of i d] Cons.IH [of "snd (react cl i d)"]
  show ?case by simp
qed

subsection \<open>End of speech\<close>

text \<open>
  Claim C9 asks for one end-of-speech, 500 ms after the user has stopped speaking. The
  page does not send it. The closure that runs from the moment the socket opens captured
  \<^verbatim>\<open>isUserSpeaking\<close> as false, and whatever the samples and the timers that come due: it
  sends no end-of-speech and no debounce timer is ever pending. No run of any closure on
  a new detector sends both an interrupt and an end-of-speech. In the run of the claim,
  fifteen samples above the threshold, sixty-one below and the moment a timer would come
  due, the page marks the user as speaking, sends the interrupt, and nothing after that.
\<close>

theorem end_of_speech_never_sent:
  "endsOfSpeech (signals atMount newDetector inputs) = 0
   \<and> pendingTimeouts (after atMount newDetector inputs) = []
   \<and> (interrupts (signals cl newDetector inputs) = 0
      \<or> endsOfSpeech (signals cl newDetector inputs) = 0)
   \<and> filter (\<lambda>x. x \<noteq> RequestAnimationFrame)
        (signals atMount newDetector
           (samples (replicate 15 userTalks @ replicate 61 userQuiet) @ [Elapsed 1 True]))
      = [SetIsUserSpeaking True, Send ''INT'']"
proof (intro conjI)
  have a: "\<not> isUserSpeaking atMount" by (simp add: atMount_def)
  have p: "pendingTimeouts newDetector = []" by (simp add: newDetector_def)
  from never_ends [OF a p, of inputs]
  show "endsOfSpeech (signals atMount newDetector inputs) = 0"
    and "pendingTimeouts (after atMount newDetector inputs) = []"
    by simp_all
  show "interrupts (signals cl newDetector inputs) = 0
      \<or> endsOfSpeech (signals cl newDetector inputs) = 0"
  proof (cases "isUserSpeaking cl")
    case True
    from never_starts [OF True, of newDetector inputs] show ?thesis by simp
  next
    case False
    from never_ends [OF False p, of inputs] show ?thesis by simp
  qed
  show "filter (\<lambda>x. x \<noteq> RequestAnimationFrame)
        (signals atMount newDetector
           (samples (replicate 15 userTalks @ replicate 61 userQuiet) @ [Elapsed 1 True]))
      = [SetIsUserSpeaking True, Send ''INT'']"
    by code_simp
qed

end
